theory Spec2Isabelle
  imports Main "HOL-Library.Sublist"
begin

section \<open>The database command group of weectl\<close>

text \<open>
  The file \<^verbatim>\<open>bin/weectllib/database_cmd.py\<close> registers six subcommands with
  Python's argparse and gives each a dispatch function that forwards the parsed
  namespace to \<^verbatim>\<open>weectllib.db_actions\<close>.  The embedding has three layers:
  Python values and the namespace, the dispatch functions (lines 222-270), and the
  parser declarations of \<^verbatim>\<open>add_subparser\<close> (lines 53-219) together with the part of
  argparse (CPython 3.11) that those declarations exercise.
\<close>

subsection \<open>Python values, the namespace, exceptions\<close>

text \<open>The six module-level functions that \<^verbatim>\<open>set_defaults(func=...)\<close> stores.\<close>

datatype func =
    F_create_database | F_drop_daily | F_rebuild_daily
  | F_add_column | F_rename_column | F_drop_columns

datatype pyval = PNone | PBool bool | PStr string | PList "string list" | PFunc func

text \<open>An \<^verbatim>\<open>argparse.Namespace\<close>: attribute name to value; an absent attribute is \<open>None\<close>
  of the option type, which is not the Python value \<open>PNone\<close>.\<close>

type_synonym namespace = "string \<rightharpoonup> pyval"

datatype py_error = SystemExit | AttributeError | TypeError

text \<open>A call of \<^verbatim>\<open>weectllib.db_actions.<fname>(*args, **kwargs)\<close>.  The collaborator is
  not part of the file; the call made is the whole observable effect of a dispatch.\<close>

datatype call = Call (fname: string) (args: "pyval list") (kwargs: "(string \<times> pyval) list")

definition kwarg :: "call \<Rightarrow> string \<Rightarrow> pyval option" where
  "kwarg c k = map_of (kwargs c) k"

text \<open>\<^verbatim>\<open>namespace.name\<close> followed by the rest of the computation: AttributeError when
  the attribute is absent.\<close>

definition with_attr :: "namespace \<Rightarrow> string \<Rightarrow> (pyval \<Rightarrow> py_error + 'a) \<Rightarrow> py_error + 'a" where
  "with_attr namespace name k =
     (case namespace name of None \<Rightarrow> Inl AttributeError | Some v \<Rightarrow> k v)"

text \<open>\<^verbatim>\<open>str.isascii()\<close>: every character is below 128.\<close>

definition isascii :: "string \<Rightarrow> bool" where
  "isascii s = list_all (\<lambda>c. (of_char c :: nat) < 128) s"

text \<open>\<^verbatim>\<open>str.upper()\<close> of an ASCII string: the letters \<open>a..z\<close> become \<open>A..Z\<close> and
  every other character stays.  On a string with a character outside ASCII Python's result
  differs (it also changes letters such as \<^verbatim>\<open>U+00E9\<close> and the dotless \<^verbatim>\<open>U+0131\<close>, which it
  turns into \<open>I\<close>), so \<open>upper s\<close> stands for \<^verbatim>\<open>s.upper()\<close> only when \<open>isascii s\<close>, and
  what is proved of line 248 is proved for such strings.\<close>

definition is_lower :: "char \<Rightarrow> bool" where
  "is_lower c = (97 \<le> (of_char c :: nat) \<and> (of_char c :: nat) \<le> 122)"

definition upper_char :: "char \<Rightarrow> char" where
  "upper_char c = (if is_lower c then char_of ((of_char c :: nat) - 32) else c)"

definition upper :: "string \<Rightarrow> string" where
  "upper s = map upper_char s"

subsection \<open>Dispatch functions (lines 222-270)\<close>

text \<open>Each function reads the attributes in the order in which Python evaluates the
  arguments of the call and then makes the one call.\<close>

definition create_database :: "namespace \<Rightarrow> py_error + call" where
  "create_database namespace =
     with_attr namespace ''config'' (\<lambda>config.
     with_attr namespace ''binding'' (\<lambda>binding.
     with_attr namespace ''dry_run'' (\<lambda>dry_run.
       Inr (Call ''create_database'' [config]
              [(''db_binding'', binding), (''dry_run'', dry_run)]))))"

definition drop_daily :: "namespace \<Rightarrow> py_error + call" where
  "drop_daily namespace =
     with_attr namespace ''config'' (\<lambda>config.
     with_attr namespace ''binding'' (\<lambda>binding.
     with_attr namespace ''dry_run'' (\<lambda>dry_run.
       Inr (Call ''drop_daily'' [config]
              [(''db_binding'', binding), (''dry_run'', dry_run)]))))"

definition rebuild_daily :: "namespace \<Rightarrow> py_error + call" where
  "rebuild_daily namespace =
     with_attr namespace ''config'' (\<lambda>config.
     with_attr namespace ''binding'' (\<lambda>binding.
     with_attr namespace ''date'' (\<lambda>date.
     with_attr namespace ''from_date'' (\<lambda>from_date.
     with_attr namespace ''to_date'' (\<lambda>to_date.
     with_attr namespace ''dry_run'' (\<lambda>dry_run.
       Inr (Call ''rebuild_daily'' [config]
              [(''db_binding'', binding), (''date'', date), (''from_date'', from_date), (''to_date'', to_date), (''dry_run'', dry_run)])))))))"

text \<open>Line 248 calls \<^verbatim>\<open>.upper()\<close> on the attribute, which only a string has.\<close>

definition add_column :: "namespace \<Rightarrow> py_error + call" where
  "add_column namespace =
     with_attr namespace ''column_type'' (\<lambda>t.
       case t of
         PStr s \<Rightarrow>
           (let column_type = upper s;
                column_type = (if column_type = ''INT'' then ''INTEGER'' else column_type)
            in
              with_attr namespace ''config'' (\<lambda>config.
              with_attr namespace ''binding'' (\<lambda>binding.
              with_attr namespace ''column_name'' (\<lambda>column_name.
              with_attr namespace ''dry_run'' (\<lambda>dry_run.
                Inr (Call ''add_column'' [config]
                       [(''db_binding'', binding), (''column_name'', column_name), (''column_type'', PStr column_type), (''dry_run'', dry_run)]))))))
       | _ \<Rightarrow> Inl AttributeError)"

definition rename_column :: "namespace \<Rightarrow> py_error + call" where
  "rename_column namespace =
     with_attr namespace ''config'' (\<lambda>config.
     with_attr namespace ''binding'' (\<lambda>binding.
     with_attr namespace ''column_name'' (\<lambda>column_name.
     with_attr namespace ''new_name'' (\<lambda>new_name.
     with_attr namespace ''dry_run'' (\<lambda>dry_run.
       Inr (Call ''rename_column'' [config]
              [(''db_binding'', binding), (''column_name'', column_name), (''new_name'', new_name), (''dry_run'', dry_run)]))))))"

definition drop_columns :: "namespace \<Rightarrow> py_error + call" where
  "drop_columns namespace =
     with_attr namespace ''config'' (\<lambda>config.
     with_attr namespace ''binding'' (\<lambda>binding.
     with_attr namespace ''column_names'' (\<lambda>column_names.
     with_attr namespace ''dry_run'' (\<lambda>dry_run.
       Inr (Call ''drop_columns'' [config]
              [(''db_binding'', binding), (''column_names'', column_names), (''dry_run'', dry_run)])))))"

fun call_func :: "func \<Rightarrow> namespace \<Rightarrow> py_error + call" where
  "call_func F_create_database = create_database"
| "call_func F_drop_daily = drop_daily"
| "call_func F_rebuild_daily = rebuild_daily"
| "call_func F_add_column = add_column"
| "call_func F_rename_column = rename_column"
| "call_func F_drop_columns = drop_columns"

subsection \<open>argparse: declarations\<close>

text \<open>
  What \<^verbatim>\<open>add_argument\<close> records of an option, as far as parsing goes.  The actions in
  use are \<^verbatim>\<open>store\<close> with one argument (the default action), \<^verbatim>\<open>store_true\<close>, and the
  \<^verbatim>\<open>help\<close> action that every parser gets.
\<close>

datatype action_kind = Help | Store_true | Store (choices: "string list option")

record optional =
  option_strings :: "string list"
  dest :: string
  kind :: action_kind
  dflt :: "pyval option"
  required :: bool

text \<open>A positional argument with \<^verbatim>\<open>nargs=None\<close> (exactly one string) or \<^verbatim>\<open>nargs='+'\<close>.\<close>

datatype nargs = One | One_or_more

record positional =
  pdest :: string
  pnargs :: nargs

text \<open>A subcommand's parser.  No parser of the file declares more than one positional.\<close>

record parser =
  optionals :: "optional list"
  positional :: "positional option"
  defaults :: "(string \<times> pyval) list"

text \<open>argparse derives the attribute name of \<^verbatim>\<open>--some-flag\<close> as \<^verbatim>\<open>some_flag\<close>.\<close>

definition infer_dest :: "string \<Rightarrow> string" where
  "infer_dest flag = map (\<lambda>c. if c = CHR ''-'' then CHR ''_'' else c) (drop 2 flag)"

text \<open>\<^verbatim>\<open>add_argument(flag)\<close> with every keyword at its default; the keywords a declaration
  gives are record updates of it.  \<^verbatim>\<open>action='store_true'\<close> also sets the default to
  \<^verbatim>\<open>False\<close>.  The help action has no attribute (its \<open>dest\<close> and default are suppressed).\<close>

definition argument :: "string \<Rightarrow> optional" where
  "argument flag = \<lparr>option_strings = [flag], dest = infer_dest flag, kind = Store None,
                     dflt = Some PNone, required = False\<rparr>"

definition store_true :: "optional \<Rightarrow> optional" where
  "store_true a = a\<lparr>kind := Store_true, dflt := Some (PBool False)\<rparr>"

definition help_action :: optional where
  "help_action = \<lparr>option_strings = [''-h'', ''--help''], dest = ''help'', kind = Help,
                   dflt = None, required = False\<rparr>"

subsection \<open>The six parsers of \<^verbatim>\<open>add_subparser\<close>\<close>

definition config_argument :: optional where
  "config_argument = argument ''--config''"

definition binding_argument :: optional where
  "binding_argument = (argument ''--binding'')\<lparr>dflt := Some (PStr ''wx_binding'')\<rparr>"

definition dry_run_argument :: optional where
  "dry_run_argument = store_true (argument ''--dry-run'')"

definition database_create_parser :: parser where
  "database_create_parser =
     \<lparr>optionals = [help_action, config_argument, binding_argument, dry_run_argument],
      positional = None,
      defaults = [(''func'', PFunc F_create_database)]\<rparr>"

definition database_drop_daily_parser :: parser where
  "database_drop_daily_parser =
     \<lparr>optionals = [help_action, config_argument, binding_argument, dry_run_argument],
      positional = None,
      defaults = [(''func'', PFunc F_drop_daily)]\<rparr>"

definition database_rebuild_parser :: parser where
  "database_rebuild_parser =
     \<lparr>optionals = [help_action, config_argument, binding_argument,
                   argument ''--date'',
                   (argument ''--from'')\<lparr>dest := ''from_date''\<rparr>,
                   (argument ''--to'')\<lparr>dest := ''to_date''\<rparr>,
                   dry_run_argument],
      positional = None,
      defaults = [(''func'', PFunc F_rebuild_daily)]\<rparr>"

definition type_choices :: "string list" where
  "type_choices = [''REAL'', ''INTEGER'', ''real'', ''integer'', ''int'']"

definition type_argument :: optional where
  "type_argument = (argument ''--type'')\<lparr>kind := Store (Some type_choices),
                      dflt := Some (PStr ''REAL''), dest := ''column_type''\<rparr>"

definition add_column_parser :: parser where
  "add_column_parser =
     \<lparr>optionals = [help_action, type_argument, config_argument, binding_argument,
                   dry_run_argument],
      positional = Some \<lparr>pdest = ''column_name'', pnargs = One\<rparr>,
      defaults = [(''func'', PFunc F_add_column)]\<rparr>"

definition to_name_argument :: optional where
  "to_name_argument = (argument ''--to-name'')\<lparr>dest := ''new_name'', required := True\<rparr>"

text \<open>The source assigns the parsers of rename-column (line 167) and drop-columns
  (line 196) to the variable \<^verbatim>\<open>add_column_parser\<close> again; each is a parser of its own, named
  here after its subcommand.\<close>

definition rename_column_parser :: parser where
  "rename_column_parser =
     \<lparr>optionals = [help_action, to_name_argument, config_argument, binding_argument,
                   dry_run_argument],
      positional = Some \<lparr>pdest = ''column_name'', pnargs = One\<rparr>,
      defaults = [(''func'', PFunc F_rename_column)]\<rparr>"

definition drop_columns_parser :: parser where
  "drop_columns_parser =
     \<lparr>optionals = [help_action, config_argument, binding_argument, dry_run_argument],
      positional = Some \<lparr>pdest = ''column_names'', pnargs = One_or_more\<rparr>,
      defaults = [(''func'', PFunc F_drop_columns)]\<rparr>"

text \<open>\<^verbatim>\<open>action_parser\<close> (lines 61-63): the subcommand names in the order of registration.
  The call of \<^verbatim>\<open>add_subparsers\<close> gives \<^verbatim>\<open>dest='action'\<close> and leaves \<^verbatim>\<open>required\<close> at its
  default, which is \<^verbatim>\<open>False\<close>.\<close>

definition name_parser_map :: "(string \<times> parser) list" where
  "name_parser_map =
     [(''create'', database_create_parser),
      (''drop-daily'', database_drop_daily_parser),
      (''rebuild-daily'', database_rebuild_parser),
      (''add-column'', add_column_parser),
      (''rename-column'', rename_column_parser),
      (''drop-columns'', drop_columns_parser)]"

definition action_required :: bool where
  "action_required = False"

subsection \<open>argparse: recognising option strings\<close>

text \<open>\<^verbatim>\<open>parser._option_string_actions\<close>: every option string with its action, in the order
  of declaration.\<close>

definition option_string_actions :: "parser \<Rightarrow> (string \<times> optional) list" where
  "option_string_actions P =
     concat (map (\<lambda>a. map (\<lambda>s. (s, a)) (option_strings a)) (optionals P))"

text \<open>\<^verbatim>\<open>s.partition('=')\<close>: the part before the first \<^verbatim>\<open>=\<close>, whether there is one, and the
  part after it.\<close>

definition partition_eq :: "string \<Rightarrow> string \<times> bool \<times> string" where
  "partition_eq s =
     (takeWhile (\<lambda>c. c \<noteq> CHR ''='') s, CHR ''='' \<in> set s,
      drop 1 (dropWhile (\<lambda>c. c \<noteq> CHR ''='') s))"

text \<open>
  \<^verbatim>\<open>_get_option_tuples\<close>, called on a string of at least two characters that begins with
  \<^verbatim>\<open>-\<close>: the abbreviations.  A string that begins with \<^verbatim>\<open>--\<close> matches every option
  string that its part before \<^verbatim>\<open>=\<close> is a prefix of; a string \<^verbatim>\<open>-x...\<close> matches the
  option string \<^verbatim>\<open>-x\<close> with the rest as explicit argument, and every option string it is
  a prefix of.  The result pairs the action with the explicit argument.
\<close>

definition get_option_tuples :: "parser \<Rightarrow> string \<Rightarrow> (optional \<times> string option) list" where
  "get_option_tuples P s =
     (if take 2 s = ''--'' then
        (case partition_eq s of (option_prefix, sep, explicit_arg) \<Rightarrow>
           map (\<lambda>(x, a). (a, if sep then Some explicit_arg else None))
             (filter (\<lambda>(x, a). prefix option_prefix x) (option_string_actions P)))
      else
        concat (map (\<lambda>(x, a).
                  if x = take 2 s then [(a, Some (drop 2 s))]
                  else if prefix s x then [(a, None)] else [])
               (option_string_actions P)))"

text \<open>\<^verbatim>\<open>_negative_number_matcher\<close>, the regular expression \<^verbatim>\<open>^-\d+$|^-\d*\.\d+$\<close>, where
  \<^verbatim>\<open>$\<close> also matches before a newline that ends the string.\<close>

definition is_digit :: "char \<Rightarrow> bool" where
  "is_digit c = (48 \<le> (of_char c :: nat) \<and> (of_char c :: nat) \<le> 57)"

definition digits1 :: "string \<Rightarrow> bool" where
  "digits1 s = (s \<noteq> [] \<and> list_all is_digit s)"

definition number_body :: "string \<Rightarrow> bool" where
  "number_body s =
     (digits1 s \<or>
      (case dropWhile is_digit s of
         [] \<Rightarrow> False
       | c # frac \<Rightarrow> c = CHR ''.'' \<and> digits1 frac))"

definition negative_number :: "string \<Rightarrow> bool" where
  "negative_number s =
     (case s of
        [] \<Rightarrow> False
      | c # r \<Rightarrow> c = CHR ''-'' \<and>
          (number_body r \<or> (r \<noteq> [] \<and> last r = CHR 0x0A \<and> number_body (butlast r))))"

text \<open>
  \<^verbatim>\<open>_parse_optional\<close>.  \<open>Inr None\<close>: the string is an argument.  \<open>Inr (Some (a, e))\<close>: it
  is an option, of action \<open>a\<close> when the parser has it (\<open>None\<close> when it has none that
  fits), with explicit argument \<open>e\<close>.  An ambiguous abbreviation is an error at once.
  No parser here has an option that looks like a negative number.
\<close>

definition parse_optional ::
  "parser \<Rightarrow> string \<Rightarrow> py_error + (optional option \<times> string option) option" where
  "parse_optional P s =
     (if s = [] then Inr None
      else if take 1 s \<noteq> ''-'' then Inr None
      else (case map_of (option_string_actions P) s of
        Some a \<Rightarrow> Inr (Some (Some a, None))
      | None \<Rightarrow>
         if length s = 1 then Inr None
         else (case partition_eq s of (option_string, sep, explicit_arg) \<Rightarrow>
           (case (if sep then map_of (option_string_actions P) option_string else None) of
              Some a \<Rightarrow> Inr (Some (Some a, Some explicit_arg))
            | None \<Rightarrow>
               (case get_option_tuples P s of
                  _ # _ # _ \<Rightarrow> Inl SystemExit
                | [(a, e)] \<Rightarrow> Inr (Some (Some a, e))
                | [] \<Rightarrow>
                   if negative_number s then Inr None
                   else if CHR '' '' \<in> set s then Inr None
                   else Inr (Some (None, None)))))))"

text \<open>
  The pattern of the command line (\<^verbatim>\<open>arg_strings_pattern\<close>): every string is an
  argument \<open>A\<close>, the first \<^verbatim>\<open>--\<close>, or an option \<open>O\<close>; behind the first \<^verbatim>\<open>--\<close> every
  string is an argument.  A token keeps the string it came from.
\<close>

datatype tok = Arg string | Dashes | Opt "optional option" string "string option"

fun raw :: "tok \<Rightarrow> string" where
  "raw (Arg s) = s"
| "raw Dashes = ''--''"
| "raw (Opt a s e) = s"

fun classify :: "parser \<Rightarrow> string list \<Rightarrow> py_error + tok list" where
  "classify P [] = Inr []"
| "classify P (s # ss) =
     (if s = ''--'' then Inr (Dashes # map Arg ss)
      else (case parse_optional P s of
        Inl e \<Rightarrow> Inl e
      | Inr r \<Rightarrow>
         (case classify P ss of
            Inl e \<Rightarrow> Inl e
          | Inr ts \<Rightarrow> Inr ((case r of None \<Rightarrow> Arg s | Some (a, e) \<Rightarrow> Opt a s e) # ts))))"

subsection \<open>argparse: consuming the command line\<close>

text \<open>The state of \<^verbatim>\<open>_parse_known_args\<close>: the namespace, the positional not yet
  consumed, and the attributes of the actions seen.\<close>

record pstate =
  ns :: namespace
  positionals :: "positional option"
  seen :: "string list"

definition check_value :: "string list option \<Rightarrow> string \<Rightarrow> bool" where
  "check_value cs v = (case cs of None \<Rightarrow> True | Some vs \<Rightarrow> v \<in> set vs)"

definition take_action :: "string \<Rightarrow> pyval \<Rightarrow> pstate \<Rightarrow> pstate" where
  "take_action d v st = st\<lparr>ns := (ns st)(d \<mapsto> v), seen := d # seen st\<rparr>"

text \<open>\<^verbatim>\<open>_get_values\<close> for a positional: the first \<^verbatim>\<open>--\<close> among its strings is dropped; one
  string left for \<^verbatim>\<open>nargs=None\<close> is the value, anything else is a list.\<close>

definition get_values :: "nargs \<Rightarrow> string list \<Rightarrow> pyval" where
  "get_values n arg_strings =
     (let vs = remove1 ''--'' arg_strings
      in if n = One \<and> length vs = 1 then PStr (hd vs) else PList vs)"

definition is_Dash :: "tok \<Rightarrow> bool" where
  "is_Dash t = (t = Dashes)"

definition is_arg :: "tok \<Rightarrow> bool" where
  "is_arg t = (case t of Opt a s e \<Rightarrow> False | _ \<Rightarrow> True)"

text \<open>What follows the first argument of a positional: \<^verbatim>\<open>-*\<close> for \<^verbatim>\<open>nargs=None\<close>,
  \<^verbatim>\<open>[A-]*\<close> for \<^verbatim>\<open>nargs='+'\<close>.\<close>

definition tail_ok :: "nargs \<Rightarrow> tok \<Rightarrow> bool" where
  "tail_ok n t = (case n of One \<Rightarrow> is_Dash t | One_or_more \<Rightarrow> is_arg t)"

text \<open>
  \<^verbatim>\<open>consume_optional\<close>: the action of an option is taken, on the state and the tokens
  that follow the option.  \<^verbatim>\<open>store\<close> takes the explicit argument, else the next token,
  which has to be an argument (pattern \<open>A\<close>); its value has to be among the choices.
  \<^verbatim>\<open>store_true\<close> takes no argument and refuses an explicit one.  \<^verbatim>\<open>help\<close> prints and
  exits.  The result is the new state with the tokens still to read.
\<close>

definition consume_optional ::
  "optional \<Rightarrow> string option \<Rightarrow> pstate \<Rightarrow> tok list \<Rightarrow> py_error + pstate \<times> tok list" where
  "consume_optional a explicit_arg st ts =
     (case kind a of
        Help \<Rightarrow> Inl SystemExit
      | Store_true \<Rightarrow>
          (case explicit_arg of
             Some x \<Rightarrow> Inl SystemExit
           | None \<Rightarrow> Inr (take_action (dest a) (PBool True) st, ts))
      | Store cs \<Rightarrow>
          (case explicit_arg of
             Some v \<Rightarrow>
               if check_value cs v then Inr (take_action (dest a) (PStr v) st, ts)
               else Inl SystemExit
           | None \<Rightarrow>
               (case ts of
                  Arg v # ts' \<Rightarrow>
                    if check_value cs v then Inr (take_action (dest a) (PStr v) st, ts')
                    else Inl SystemExit
                | _ \<Rightarrow> Inl SystemExit)))"

text \<open>
  \<^verbatim>\<open>consume_positionals\<close>, at a token that is not an option: the pending positional
  matches \<^verbatim>\<open>-*A-*\<close> or \<^verbatim>\<open>-*A[A-]*\<close> from here, as far as it goes, and its action stores
  the value.  When there is no positional left or the pattern does not match, argparse
  consumes nothing and collects the string as unrecognized; so it does with an option
  that the parser does not have.  \<^verbatim>\<open>parse_args\<close> exits on an unrecognized string when
  the parsing is over, unless the parsing exits before: both ways the outcome is
  SystemExit, which the model returns at once.
\<close>

definition consume_positionals :: "pstate \<Rightarrow> tok list \<Rightarrow> py_error + pstate \<times> tok list" where
  "consume_positionals st ts =
     (case positionals st of
        None \<Rightarrow> Inl SystemExit
      | Some p \<Rightarrow>
         (case dropWhile is_Dash ts of
            Arg v # ts' \<Rightarrow>
              Inr ((take_action (pdest p)
                      (get_values (pnargs p)
                         (map raw (takeWhile is_Dash ts @ Arg v #
                                   takeWhile (tail_ok (pnargs p)) ts'))) st)
                     \<lparr>positionals := None\<rparr>,
                   dropWhile (tail_ok (pnargs p)) ts')
          | _ \<Rightarrow> Inl SystemExit))"

text \<open>One round of the loop of \<^verbatim>\<open>_parse_known_args\<close>, by the token at the current
  position.\<close>

fun consume_next :: "pstate \<Rightarrow> tok list \<Rightarrow> py_error + pstate \<times> tok list" where
  "consume_next st [] = Inr (st, [])"
| "consume_next st (Opt None s e # ts) = Inl SystemExit"
| "consume_next st (Opt (Some a) s e # ts) = consume_optional a e st ts"
| "consume_next st ts = consume_positionals st ts"

function consume :: "pstate \<Rightarrow> tok list \<Rightarrow> py_error + pstate" where
  "consume st [] = Inr st"
| "consume st (t # ts) =
     (case consume_next st (t # ts) of
        Inl e \<Rightarrow> Inl e
      | Inr (st', ts') \<Rightarrow> consume st' ts')"
  by pat_completeness auto
termination
proof (relation "measure (\<lambda>(st, ts). length ts)", simp, goal_cases)
  case (1 st t ts r st' ts')
  have opt: "length ts' \<le> length us"
    if "consume_optional a e st us = Inr (st', ts')" for a e us
    using that
    by (auto simp: consume_optional_def
             split: action_kind.splits option.splits list.splits tok.splits if_splits)
  have pos: "length ts' < length us"
    if "consume_positionals st us = Inr (st', ts')" for us
  proof -
    from that obtain p :: positional and v us' where d: "dropWhile is_Dash us = Arg v # us'"
      and r: "ts' = dropWhile (tail_ok (pnargs p)) us'"
      by (auto simp: consume_positionals_def split: option.splits list.splits tok.splits)
    have "length ts' \<le> length us'" unfolding r by (rule length_dropWhile_le)
    moreover have "length (dropWhile is_Dash us) \<le> length us" by (rule length_dropWhile_le)
    ultimately show ?thesis using d by simp
  qed
  from 1 have n: "consume_next st (t # ts) = Inr (st', ts')" by simp
  show ?case
  proof (cases t)
    case (Arg v)
    with n pos [of "t # ts"] show ?thesis by simp
  next
    case Dashes
    with n pos [of "t # ts"] show ?thesis by simp
  next
    case (Opt a s e)
    with n obtain a' where "consume_optional a' e st ts = Inr (st', ts')"
      by (cases a) auto
    from opt [OF this] show ?thesis by simp
  qed
qed

text \<open>After the loop: an action that is required and was not seen is an error.  A
  positional with \<^verbatim>\<open>nargs=None\<close> or \<^verbatim>\<open>'+'\<close> is required.\<close>

definition required_present :: "parser \<Rightarrow> pstate \<Rightarrow> bool" where
  "required_present P st =
     (positionals st = None \<and>
      list_all (\<lambda>a. required a \<longrightarrow> dest a \<in> set (seen st)) (optionals P))"

text \<open>\<^verbatim>\<open>setattr\<close> unless the attribute is there already.\<close>

definition setdefault :: "string \<Rightarrow> pyval \<Rightarrow> namespace \<Rightarrow> namespace" where
  "setdefault d v n = (if n d = None then n(d \<mapsto> v) else n)"

text \<open>The namespace before any string is read: the default of every action that has an
  attribute, then the parser's own defaults (\<^verbatim>\<open>set_defaults\<close>).\<close>

definition initial_namespace :: "parser \<Rightarrow> namespace" where
  "initial_namespace P =
     fold (\<lambda>(d, v). setdefault d v) (defaults P)
       (fold (\<lambda>a. case dflt a of None \<Rightarrow> id | Some v \<Rightarrow> setdefault (dest a) v) (optionals P)
          (case positional P of None \<Rightarrow> Map.empty | Some p \<Rightarrow> [pdest p \<mapsto> PNone]))"

text \<open>\<^verbatim>\<open>parse_known_args\<close> of a subcommand's parser, with unrecognized strings already
  turned into the exit they lead to.\<close>

definition parse_known_args :: "parser \<Rightarrow> string list \<Rightarrow> py_error + namespace" where
  "parse_known_args P arg_strings =
     (case classify P arg_strings of
        Inl e \<Rightarrow> Inl e
      | Inr ts \<Rightarrow>
         (case consume \<lparr>ns = initial_namespace P, positionals = positional P, seen = []\<rparr> ts of
            Inl e \<Rightarrow> Inl e
          | Inr st \<Rightarrow> if required_present P st then Inr (ns st) else Inl SystemExit))"

text \<open>
  The parser of the command group, on the strings that follow \<^verbatim>\<open>weectl database\<close>.  Its
  only argument is the subcommand (\<^verbatim>\<open>nargs=PARSER\<close>, pattern \<^verbatim>\<open>-*A[-AO]*\<close>) and its only
  option is \<^verbatim>\<open>-h/--help\<close>.  With no string at all nothing is consumed, and as the
  subcommand is not required the outcome is the namespace with \<^verbatim>\<open>action\<close> at its
  default \<^verbatim>\<open>None\<close>.  A first string that is a subcommand name starts the match, which
  then takes every string; the name is stored in \<^verbatim>\<open>action\<close>, the rest goes to the
  subcommand's parser, and every attribute that one sets is copied.  Any other first
  string ends in SystemExit: \<^verbatim>\<open>-h\<close> and its abbreviations by printing the help, another
  option as unrecognized, another argument or \<^verbatim>\<open>--\<close> as an invalid choice.
\<close>

definition parse_args :: "string list \<Rightarrow> py_error + namespace" where
  "parse_args arg_strings =
     (case arg_strings of
        [] \<Rightarrow> if action_required then Inl SystemExit else Inr [''action'' \<mapsto> PNone]
      | parser_name # rest \<Rightarrow>
         (case map_of name_parser_map parser_name of
            None \<Rightarrow> Inl SystemExit
          | Some P \<Rightarrow>
             (case parse_known_args P rest of
                Inl e \<Rightarrow> Inl e
              | Inr subnamespace \<Rightarrow> Inr ([''action'' \<mapsto> PStr parser_name] ++ subnamespace))))"

text \<open>The caller of the parser is not in the file; it runs \<^verbatim>\<open>namespace.func(namespace)\<close>
  on the namespace that the parser returns.\<close>

definition invoke :: "string list \<Rightarrow> py_error + call" where
  "invoke arg_strings =
     (case parse_args arg_strings of
        Inl e \<Rightarrow> Inl e
      | Inr namespace \<Rightarrow>
         (case namespace ''func'' of
            None \<Rightarrow> Inl AttributeError
          | Some (PFunc f) \<Rightarrow> call_func f namespace
          | Some _ \<Rightarrow> Inl TypeError))"

subsection \<open>Vocabulary of the properties\<close>

text \<open>The letters a letter case can change, paired position by position.\<close>

definition ascii_lowercase :: string where
  "ascii_lowercase = ''abcdefghijklmnopqrstuvwxyz''"

definition ascii_uppercase :: string where
  "ascii_uppercase = ''ABCDEFGHIJKLMNOPQRSTUVWXYZ''"

text \<open>A string spells a lower-case word in some letter case: character by character it is the
  letter of the word or its capital.\<close>

definition in_any_case :: "string \<Rightarrow> string \<Rightarrow> bool" where
  "in_any_case word s =
     list_all2 (\<lambda>c l. c = l \<or> (l, c) \<in> set (zip ascii_lowercase ascii_uppercase)) s word"

text \<open>A command-line string that does not begin with a dash: argparse reads it as an argument.\<close>

definition plain :: "string \<Rightarrow> bool" where
  "plain s = (take 1 s \<noteq> ''-'')"

text \<open>A command-line string gives the flag: its part before any \<^verbatim>\<open>=\<close> is the flag or one of
  the abbreviations of it that argparse accepts (a prefix that goes beyond the two dashes).  A flag is
  omitted from a command line when no string of the line spells it.\<close>

definition spells :: "string \<Rightarrow> string \<Rightarrow> bool" where
  "spells flag s = (3 \<le> length (fst (partition_eq s)) \<and> prefix (fst (partition_eq s)) flag)"

text \<open>A classified command line: no argument is \<^verbatim>\<open>--\<close> itself, and only arguments follow
  a \<^verbatim>\<open>--\<close>.\<close>

fun wf_toks :: "tok list \<Rightarrow> bool" where
  "wf_toks [] = True"
| "wf_toks (Arg s # ts) = (s \<noteq> ''--'' \<and> wf_toks ts)"
| "wf_toks (Opt a s e # ts) = wf_toks ts"
| "wf_toks (Dashes # ts) = list_all (\<lambda>t. \<exists>s. t = Arg s) ts"

text \<open>The six parsers of the command group.\<close>

definition subparsers :: "parser list" where
  "subparsers = map snd name_parser_map"

text \<open>Every option of a parser but \<^verbatim>\<open>-h\<close> has one option string, a long one without
  \<^verbatim>\<open>=\<close>, and the parser has at least two long option strings.\<close>

definition long_only :: "parser \<Rightarrow> bool" where
  "long_only P =
     (list_all (\<lambda>(x, a). kind a \<noteq> Help \<longrightarrow>
          option_strings a = [x] \<and> take 2 x = ''--'' \<and> 3 \<le> length x \<and> CHR ''='' \<notin> set x)
        (option_string_actions P) \<and>
      2 \<le> length (filter (\<lambda>(x, a). prefix ''--'' x) (option_string_actions P)))"

text \<open>Some option of the classified command line writes the value to the attribute, from its
  explicit argument or from an argument of the line.\<close>

definition stores :: "tok list \<Rightarrow> string \<Rightarrow> pyval \<Rightarrow> bool" where
  "stores ts d v =
     (\<exists>a s e. Opt (Some a) s e \<in> set ts \<and> dest a = d \<and>
        ((kind a = Store_true \<and> v = PBool True) \<or>
         (\<exists>cs x. kind a = Store cs \<and> check_value cs x \<and> v = PStr x \<and>
            (e = Some x \<or> (e = None \<and> Arg x \<in> set ts)))))"

text \<open>Only the option with this one flag and this kind of action writes the attribute.\<close>

definition dest_flag :: "parser \<Rightarrow> string \<Rightarrow> string \<Rightarrow> action_kind \<Rightarrow> bool" where
  "dest_flag P d flag k =
     (list_all (\<lambda>a. dest a = d \<longrightarrow> kind a = k \<and> option_strings a = [flag]) (optionals P) \<and>
      (case positional P of None \<Rightarrow> True | Some p \<Rightarrow> pdest p \<noteq> d))"

text \<open>No option of the parser writes the attribute.\<close>

definition no_option :: "parser \<Rightarrow> string \<Rightarrow> bool" where
  "no_option P d = list_all (\<lambda>a. dest a \<noteq> d) (optionals P)"

text \<open>The function that \<^verbatim>\<open>set_defaults(func=...)\<close> binds to each subcommand name
  (lines 81, 103, 135, 164, 193 and 219).\<close>

definition action_func :: "(string \<times> func) list" where
  "action_func =
     [(''create'', F_create_database), (''drop-daily'', F_drop_daily),
      (''rebuild-daily'', F_rebuild_daily), (''add-column'', F_add_column),
      (''rename-column'', F_rename_column), (''drop-columns'', F_drop_columns)]"


text \<open>The operands of a command line: the strings that argparse reads as arguments and that
  are not the value of an option.  A string that follows an option with an argument and no
  \<^verbatim>\<open>=\<close> is its value; behind the first \<^verbatim>\<open>--\<close> every string is an operand.\<close>

fun operands :: "parser \<Rightarrow> string list \<Rightarrow> string list" where
  "operands P [] = []"
| "operands P (s # ss) =
     (if s = ''--'' then ss
      else (case parse_optional P s of
              Inr None \<Rightarrow> s # operands P ss
            | Inr (Some (Some a, None)) \<Rightarrow>
                (case kind a of Store cs \<Rightarrow> operands P (drop 1 ss) | _ \<Rightarrow> operands P ss)
            | _ \<Rightarrow> operands P ss))"


subsection \<open>Letter case\<close>

lemma upper_char_pair:
  "(l, c) \<in> set (zip ascii_lowercase ascii_uppercase) \<Longrightarrow> upper_char l = c \<and> upper_char c = c"
  unfolding ascii_lowercase_def ascii_uppercase_def
  by (auto simp: upper_char_def is_lower_def char_of_eq_iff)

lemma upper_variant:
  "list_all2 (\<lambda>c l. c = l \<or> (l, c) \<in> set (zip ascii_lowercase ascii_uppercase)) s w \<Longrightarrow>
   list_all (\<lambda>l. l \<in> set ascii_lowercase) w \<Longrightarrow> upper s = upper w"
proof (induction s w rule: list_all2_induct)
  case Nil
  then show ?case by simp
next
  case (Cons c s l w)
  from Cons have IH: "upper s = upper w" by simp
  have "upper_char c = upper_char l"
  proof (cases "c = l")
    case True then show ?thesis by simp
  next
    case False
    with Cons.hyps have "(l, c) \<in> set (zip ascii_lowercase ascii_uppercase)" by simp
    then show ?thesis using upper_char_pair by metis
  qed
  with IH show ?case by (simp add: upper_def)
qed

lemma upper_int: "in_any_case ''int'' s \<Longrightarrow> upper s = ''INT''"
proof -
  assume "in_any_case ''int'' s"
  then have "upper s = upper ''int''"
    unfolding in_any_case_def
    by (rule upper_variant) (simp add: ascii_lowercase_def)
  also have "upper ''int'' = ''INT''"
    by code_simp
  finally show ?thesis .
qed

lemma upper_real: "in_any_case ''real'' s \<Longrightarrow> upper s = ''REAL''"
proof -
  assume "in_any_case ''real'' s"
  then have "upper s = upper ''real''"
    unfolding in_any_case_def
    by (rule upper_variant) (simp add: ascii_lowercase_def)
  also have "upper ''real'' = ''REAL''"
    by code_simp
  finally show ?thesis .
qed

lemma upper_integer: "in_any_case ''integer'' s \<Longrightarrow> upper s = ''INTEGER''"
proof -
  assume "in_any_case ''integer'' s"
  then have "upper s = upper ''integer''"
    unfolding in_any_case_def
    by (rule upper_variant) (simp add: ascii_lowercase_def)
  also have "upper ''integer'' = ''INTEGER''"
    by code_simp
  finally show ?thesis .
qed

subsection \<open>Classification of the command line\<close>

lemmas parser_defs = name_parser_map_def database_create_parser_def database_drop_daily_parser_def
  database_rebuild_parser_def add_column_parser_def rename_column_parser_def drop_columns_parser_def
  help_action_def config_argument_def binding_argument_def dry_run_argument_def type_argument_def
  to_name_argument_def argument_def store_true_def infer_dest_def type_choices_def

lemma plain_parse_optional: "plain s \<Longrightarrow> parse_optional P s = Inr None"
  by (auto simp: plain_def parse_optional_def)

lemma plain_not_dashes: "plain s \<Longrightarrow> s \<noteq> ''--''"
  by (auto simp: plain_def)

lemma classify_raw: "classify P ss = Inr ts \<Longrightarrow> map raw ts = ss"
proof (induction ss arbitrary: ts)
  case Nil then show ?case by simp
next
  case (Cons s ss)
  show ?case
  proof (cases "s = ''--''")
    case True
    with Cons.prems show ?thesis by (auto simp: comp_def)
  next
    case False
    with Cons show ?thesis
      by (auto split: sum.splits option.splits)
  qed
qed

lemma classify_wf: "classify P ss = Inr ts \<Longrightarrow> wf_toks ts"
proof (induction ss arbitrary: ts)
  case Nil then show ?case by simp
next
  case (Cons s ss)
  show ?case
  proof (cases "s = ''--''")
    case True
    with Cons.prems show ?thesis by (auto simp: list_all_iff)
  next
    case False
    with Cons show ?thesis
      by (auto split: sum.splits option.splits simp: parse_optional_def)
  qed
qed

lemma classify_opt:
  "classify P ss = Inr ts \<Longrightarrow> Opt a s e \<in> set ts \<Longrightarrow>
   s \<in> set ss \<and> parse_optional P s = Inr (Some (a, e))"
proof (induction ss arbitrary: ts)
  case Nil then show ?case by simp
next
  case (Cons x ss)
  show ?case
  proof (cases "x = ''--''")
    case True
    with Cons.prems show ?thesis by auto
  next
    case False
    with Cons show ?thesis
      by (auto split: sum.splits option.splits)
  qed
qed

lemma classify_arg: "classify P ss = Inr ts \<Longrightarrow> Arg v \<in> set ts \<Longrightarrow> v \<in> set ss"
  using classify_raw [of P ss ts]
  by (metis image_eqI list.set_map raw.simps(1))

subsection \<open>Which strings an option string matches\<close>

lemma subparsers_cases:
  "P \<in> set subparsers \<Longrightarrow>
   P = database_create_parser \<or> P = database_drop_daily_parser \<or> P = database_rebuild_parser \<or>
   P = add_column_parser \<or> P = rename_column_parser \<or> P = drop_columns_parser"
  by (auto simp: subparsers_def name_parser_map_def)

lemma long_only_all: "list_all long_only subparsers"
  by code_simp

lemma subparsers_long_only: "P \<in> set subparsers \<Longrightarrow> long_only P"
  using long_only_all by (simp add: list_all_iff)

lemma osa_optionals: "(x, a) \<in> set (option_string_actions P) \<Longrightarrow> a \<in> set (optionals P)"
  by (auto simp: option_string_actions_def)

lemma takeWhile_no_eq: "CHR ''='' \<notin> set x \<Longrightarrow> fst (partition_eq x) = x"
  by (auto simp: partition_eq_def takeWhile_eq_all_conv)

lemma partition_prefix_dashes:
  "take 2 s = ''--'' \<Longrightarrow> prefix ''--'' (fst (partition_eq s))"
  by (cases s; cases "tl s") (auto simp: partition_eq_def)

lemma tuples_long:
  assumes lo: "long_only P" and t: "get_option_tuples P s = [(a, e)]" and dd: "take 2 s = ''--''"
  shows "\<exists>x. (x, a) \<in> set (option_string_actions P) \<and> prefix (fst (partition_eq s)) x
             \<and> 3 \<le> length (fst (partition_eq s))
             \<and> (e = None \<or> e = Some (snd (snd (partition_eq s))))"
proof -
  let ?p = "fst (partition_eq s)"
  let ?f = "filter (\<lambda>(x, a). prefix ?p x) (option_string_actions P)"
  from t dd have m: "map (\<lambda>(x, a). (a, if fst (snd (partition_eq s)) then Some (snd (snd (partition_eq s))) else None)) ?f = [(a, e)]"
    by (simp add: get_option_tuples_def split_beta)
  then obtain x where f: "?f = [(x, a)]"
    by (cases ?f) (auto split: prod.splits)
  then have "(x, a) \<in> set ?f" by simp
  then have xa: "(x, a) \<in> set (option_string_actions P)" and px: "prefix ?p x" by auto
  have e: "e = None \<or> e = Some (snd (snd (partition_eq s)))"
    using m f by (auto split: if_splits)
  have "3 \<le> length ?p"
  proof (rule ccontr)
    assume "\<not> 3 \<le> length ?p"
    moreover from dd have pp: "prefix ''--'' ?p" by (rule partition_prefix_dashes)
    ultimately have "?p = ''--''"
    proof -
      assume n: "\<not> 3 \<le> length ?p"
      from pp obtain r where r: "?p = ''--'' @ r" by (auto simp: prefix_def)
      with n have "r = []" by (cases r) auto
      with r show ?thesis by simp
    qed
    with f have "length (filter (\<lambda>(x, a). prefix ''--'' x) (option_string_actions P)) = 1"
      by simp
    with lo show False by (simp add: long_only_def)
  qed
  with xa px e show ?thesis by blast
qed

lemma long_onlyD:
  "long_only P \<Longrightarrow> (x, a) \<in> set (option_string_actions P) \<Longrightarrow> kind a \<noteq> Help \<Longrightarrow>
   option_strings a = [x] \<and> take 2 x = ''--'' \<and> 3 \<le> length x \<and> CHR ''='' \<notin> set x"
  by (auto simp: long_only_def list_all_iff)

lemma tuples_short:
  assumes lo: "long_only P" and t: "(a, e) \<in> set (get_option_tuples P s)"
    and dd: "take 2 s \<noteq> ''--''" and len: "2 \<le> length s"
  shows "kind a = Help"
proof (rule ccontr)
  assume nh: "kind a \<noteq> Help"
  from t dd obtain x where xa: "(x, a) \<in> set (option_string_actions P)"
    and c: "x = take 2 s \<or> prefix s x"
    by (auto simp: get_option_tuples_def split: if_splits)
  from long_onlyD [OF lo xa nh] have x2: "take 2 x = ''--''" and x3: "3 \<le> length x" by auto
  from c show False
  proof
    assume "x = take 2 s"
    with x3 show False by simp
  next
    assume "prefix s x"
    then obtain r where "x = s @ r" by (auto simp: prefix_def)
    with len have "take 2 x = take 2 s" by simp
    with x2 dd show False by simp
  qed
qed

lemma parse_optional_spells:
  assumes lo: "long_only P" and po: "parse_optional P s = Inr (Some (Some a, e))"
  shows "a \<in> set (optionals P) \<and>
         (kind a = Help \<or>
          (\<exists>x. option_strings a = [x] \<and> spells x s \<and>
               (e = None \<or> (e = Some (snd (snd (partition_eq s))) \<and> CHR ''='' \<in> set s))))"
proof (cases "map_of (option_string_actions P) s")
  case (Some a')
  with po have a: "a' = a" and e: "e = None"
    by (auto simp: parse_optional_def split: if_splits)
  from Some a have xa: "(s, a) \<in> set (option_string_actions P)" by (auto dest: map_of_SomeD)
  show ?thesis
  proof (cases "kind a = Help")
    case True with xa show ?thesis by (auto dest: osa_optionals)
  next
    case False
    from long_onlyD [OF lo xa False] takeWhile_no_eq [of s] xa e show ?thesis
      by (auto simp: spells_def dest: osa_optionals)
  qed
next
  case None
  note m1 = None
  from po have ne: "s \<noteq> []" and len: "length s \<noteq> 1"
    using None by (auto simp: parse_optional_def split: if_splits)
  then have len2: "2 \<le> length s" by (cases s; cases "tl s") auto
  let ?p = "fst (partition_eq s)"
  let ?sep = "fst (snd (partition_eq s))"
  let ?ex = "snd (snd (partition_eq s))"
  have sep: "?sep = (CHR ''='' \<in> set s)" by (simp add: partition_eq_def)
  show ?thesis
  proof (cases "if ?sep then map_of (option_string_actions P) ?p else None")
    case (Some a')
    with po m1 ne len have a: "a' = a" and e: "e = Some ?ex"
      by (auto simp: parse_optional_def split_beta split: if_splits)
    from Some a have s: "?sep" and xa: "(?p, a) \<in> set (option_string_actions P)"
      by (auto dest: map_of_SomeD split: if_splits)
    show ?thesis
    proof (cases "kind a = Help")
      case True with xa show ?thesis by (auto dest: osa_optionals)
    next
      case False
      from long_onlyD [OF lo xa False] xa e s sep show ?thesis
        by (auto simp: spells_def dest: osa_optionals)
    qed
  next
    case None
    with po m1 ne len have t: "get_option_tuples P s = [(a, e)]"
      by (auto simp: parse_optional_def split_beta split: if_splits list.splits)
    show ?thesis
    proof (cases "take 2 s = ''--''")
      case True
      from tuples_long [OF lo t True] obtain x where
        xa: "(x, a) \<in> set (option_string_actions P)" and px: "prefix ?p x"
        and l3: "3 \<le> length ?p" and e: "e = None \<or> e = Some ?ex" by blast
      have e': "e = None \<or> (e = Some ?ex \<and> CHR ''='' \<in> set s)"
        using t True sep by (auto simp: get_option_tuples_def split_beta split: if_splits)
      show ?thesis
      proof (cases "kind a = Help")
        case True with xa show ?thesis by (auto dest: osa_optionals)
      next
        case False
        from long_onlyD [OF lo xa False] xa px l3 e' show ?thesis
          by (auto simp: spells_def dest: osa_optionals)
      qed
    next
      case False
      from t have m: "(a, e) \<in> set (get_option_tuples P s)" by simp
      from tuples_short [OF lo this False len2] have h: "kind a = Help" .
      from m False obtain x where "(x, a) \<in> set (option_string_actions P)"
        by (auto simp: get_option_tuples_def split: if_splits)
      with h show ?thesis by (auto dest: osa_optionals)
    qed
  qed
qed

subsection \<open>One round of the loop\<close>

lemma consume_optional_effect:
  "consume_optional a e st us = Inr (st1, ts1) \<Longrightarrow>
   positionals st1 = positionals st \<and> seen st1 = dest a # seen st \<and>
   (\<exists>v. ns st1 = (ns st)(dest a \<mapsto> v) \<and>
     ((kind a = Store_true \<and> e = None \<and> v = PBool True \<and> ts1 = us) \<or>
      (\<exists>cs x. kind a = Store cs \<and> check_value cs x \<and> v = PStr x \<and>
         ((e = Some x \<and> ts1 = us) \<or> (e = None \<and> us = Arg x # ts1)))))"
  by (auto simp: consume_optional_def take_action_def
           split: action_kind.splits option.splits list.splits tok.splits if_splits)

lemma consume_positionals_effect:
  assumes "consume_positionals st ts = Inr (st1, ts1)"
  shows "\<exists>p dd v tl'. positionals st = Some p \<and> positionals st1 = None \<and>
     seen st1 = pdest p # seen st \<and>
     ns st1 = (ns st)(pdest p \<mapsto> get_values (pnargs p) (map raw (dd @ Arg v # tl'))) \<and>
     ts = (dd @ Arg v # tl') @ ts1 \<and> list_all is_Dash dd \<and> list_all (tail_ok (pnargs p)) tl'"
proof -
  from assms obtain p :: positional and v ts' where p: "positionals st = Some p"
    and d: "dropWhile is_Dash ts = Arg v # ts'"
    and s: "st1 = (take_action (pdest p) (get_values (pnargs p)
                         (map raw (takeWhile is_Dash ts @ Arg v #
                                   takeWhile (tail_ok (pnargs p)) ts'))) st)\<lparr>positionals := None\<rparr>"
    and r: "ts1 = dropWhile (tail_ok (pnargs p)) ts'"
    by (auto simp: consume_positionals_def split: option.splits list.splits tok.splits)
  have "ts = takeWhile is_Dash ts @ dropWhile is_Dash ts" by simp
  also have "\<dots> = takeWhile is_Dash ts @ Arg v # (takeWhile (tail_ok (pnargs p)) ts' @ ts1)"
    using d r by simp
  finally have ts: "ts = (takeWhile is_Dash ts @ Arg v # takeWhile (tail_ok (pnargs p)) ts') @ ts1"
    by simp
  have "list_all is_Dash (takeWhile is_Dash ts)"
    by (simp add: list_all_iff) (metis set_takeWhileD)
  moreover have "list_all (tail_ok (pnargs p)) (takeWhile (tail_ok (pnargs p)) ts')"
    by (simp add: list_all_iff) (metis set_takeWhileD)
  ultimately show ?thesis using p s ts
    by (intro exI [of _ p] exI [of _ "takeWhile is_Dash ts"] exI [of _ v]
              exI [of _ "takeWhile (tail_ok (pnargs p)) ts'"])
       (simp add: take_action_def)
qed

lemma consume_next_cases:
  assumes "consume_next st (t # ts) = Inr (st1, ts1)"
  obtains (opt) a s e where "t = Opt (Some a) s e" "consume_optional a e st ts = Inr (st1, ts1)"
  | (pos) "is_arg t" "consume_positionals st (t # ts) = Inr (st1, ts1)"
  using assms
  by (cases t; cases "case t of Opt a s e \<Rightarrow> a | _ \<Rightarrow> None") (auto simp: is_arg_def)

subsection \<open>What the loop writes\<close>

lemma stores_mono: "stores ts1 d v \<Longrightarrow> set ts1 \<subseteq> set ts \<Longrightarrow> stores ts d v"
  unfolding stores_def by blast

lemma consume_next_subset:
  assumes "consume_next st (t # ts) = Inr (st1, ts1)"
  shows "set ts1 \<subseteq> set (t # ts)"
  using assms
proof (cases rule: consume_next_cases)
  case (opt a s e)
  from consume_optional_effect [OF opt(2)] show ?thesis by auto
next
  case pos
  from consume_positionals_effect [OF pos(2)] obtain sl where "t # ts = sl @ ts1" by blast
  then have "set (t # ts) = set sl \<union> set ts1" by (metis set_append)
  then show ?thesis by blast
qed

lemma consume_Cons:
  assumes "consume st (t # ts) = Inr st'"
  obtains st1 ts1 where "consume_next st (t # ts) = Inr (st1, ts1)" "consume st1 ts1 = Inr st'"
  using assms by (auto split: sum.splits)

lemma consume_next_written:
  assumes n: "consume_next st (t # ts) = Inr (st1, ts1)"
    and p: "\<And>p. positionals st = Some p \<Longrightarrow> pdest p \<noteq> d"
  shows "ns st1 d = ns st d \<or> (\<exists>v. ns st1 d = Some v \<and> stores (t # ts) d v)"
  using n
proof (cases rule: consume_next_cases)
  case (opt a s e)
  show ?thesis
  proof (cases "dest a = d")
    case False
    with consume_optional_effect [OF opt(2)] show ?thesis by auto
  next
    case True
    from consume_optional_effect [OF opt(2)] obtain v where
      v: "ns st1 = (ns st)(dest a \<mapsto> v)" and
      k: "(kind a = Store_true \<and> e = None \<and> v = PBool True \<and> ts1 = ts) \<or>
          (\<exists>cs x. kind a = Store cs \<and> check_value cs x \<and> v = PStr x \<and>
             ((e = Some x \<and> ts1 = ts) \<or> (e = None \<and> ts = Arg x # ts1)))" by blast
    have "stores (t # ts) d v"
      unfolding stores_def
      by (rule exI [of _ a], rule exI [of _ s], rule exI [of _ e])
         (use k True opt(1) in auto)
    with v True show ?thesis by simp
  qed
next
  case pos
  from consume_positionals_effect [OF pos(2)] p show ?thesis by auto
qed

lemma consume_next_pending:
  assumes n: "consume_next st (t # ts) = Inr (st1, ts1)"
  shows "positionals st1 = positionals st \<or> positionals st1 = None"
  using n
  by (cases rule: consume_next_cases)
     (auto dest!: consume_optional_effect consume_positionals_effect)

lemma consume_written:
  "consume st ts = Inr st' \<Longrightarrow> (\<And>p. positionals st = Some p \<Longrightarrow> pdest p \<noteq> d) \<Longrightarrow>
   ns st' d = ns st d \<or> (\<exists>v. ns st' d = Some v \<and> stores ts d v)"
proof (induction st ts rule: consume.induct)
  case (1 st)
  then show ?case by simp
next
  case (2 st t ts)
  from "2.prems"(1) obtain st1 ts1 where n: "consume_next st (t # ts) = Inr (st1, ts1)"
    and c: "consume st1 ts1 = Inr st'" by (rule consume_Cons)
  from consume_next_pending [OF n] "2.prems"(2)
  have p1: "\<And>p. positionals st1 = Some p \<Longrightarrow> pdest p \<noteq> d" by auto
  from "2.IH" [OF n refl c p1]
  have ih: "ns st' d = ns st1 d \<or> (\<exists>v. ns st' d = Some v \<and> stores ts1 d v)" by simp
  from consume_next_written [OF n "2.prems"(2)]
  have w: "ns st1 d = ns st d \<or> (\<exists>v. ns st1 d = Some v \<and> stores (t # ts) d v)" by simp
  from ih w stores_mono [OF _ consume_next_subset [OF n]] show ?case by metis
qed

lemma consume_seen:
  "consume st ts = Inr st' \<Longrightarrow> d \<in> set (seen st') \<Longrightarrow>
   d \<in> set (seen st) \<or> (\<exists>a s e. Opt (Some a) s e \<in> set ts \<and> dest a = d) \<or>
   (\<exists>p. positionals st = Some p \<and> pdest p = d)"
proof (induction st ts rule: consume.induct)
  case (1 st)
  then show ?case by simp
next
  case (2 st t ts)
  from "2.prems"(1) obtain st1 ts1 where n: "consume_next st (t # ts) = Inr (st1, ts1)"
    and c: "consume st1 ts1 = Inr st'" by (rule consume_Cons)
  from "2.IH" [OF n refl c "2.prems"(2)]
  have ih: "d \<in> set (seen st1) \<or> (\<exists>a s e. Opt (Some a) s e \<in> set ts1 \<and> dest a = d) \<or>
   (\<exists>p. positionals st1 = Some p \<and> pdest p = d)" by simp
  note sub = consume_next_subset [OF n]
  from n show ?case
  proof (cases rule: consume_next_cases)
    case (opt a s e)
    from consume_optional_effect [OF opt(2)] ih sub opt(1) show ?thesis
      by (cases "dest a = d") auto
  next
    case pos
    from consume_positionals_effect [OF pos(2)] ih sub show ?thesis by auto
  qed
qed

lemma slice_no_opt:
  assumes "list_all is_Dash dd" "list_all (tail_ok n) tl'"
  shows "Opt a s e \<notin> set (dd @ Arg v # tl')"
  using assms by (cases n) (auto simp: list_all_iff is_Dash_def is_arg_def tail_ok_def)

lemma consume_store_true:
  "consume st ts = Inr st' \<Longrightarrow> Opt (Some a) s e \<in> set ts \<Longrightarrow> kind a = Store_true \<Longrightarrow>
   (\<And>a' s' e'. Opt (Some a') s' e' \<in> set ts \<Longrightarrow> dest a' = dest a \<Longrightarrow> kind a' = Store_true) \<Longrightarrow>
   (\<And>p. positionals st = Some p \<Longrightarrow> pdest p \<noteq> dest a) \<Longrightarrow>
   ns st' (dest a) = Some (PBool True)"
proof (induction st ts rule: consume.induct)
  case (1 st)
  then show ?case by simp
next
  case (2 st t ts)
  from "2.prems"(1) obtain st1 ts1 where n: "consume_next st (t # ts) = Inr (st1, ts1)"
    and c: "consume st1 ts1 = Inr st'" by (rule consume_Cons)
  note sub = consume_next_subset [OF n]
  from consume_next_pending [OF n] "2.prems"(5)
  have p1: "\<And>p. positionals st1 = Some p \<Longrightarrow> pdest p \<noteq> dest a" by auto
  have k1: "\<And>a' s' e'. Opt (Some a') s' e' \<in> set ts1 \<Longrightarrow> dest a' = dest a \<Longrightarrow> kind a' = Store_true"
    using "2.prems"(4) sub by blast
  show ?case
  proof (cases "Opt (Some a) s e \<in> set ts1")
    case True
    from "2.IH" [OF n refl c True "2.prems"(3) k1 p1] show ?thesis by simp
  next
    case False
    from n have "ns st1 (dest a) = Some (PBool True)"
    proof (cases rule: consume_next_cases)
      case (opt a0 s0 e0)
      from consume_optional_effect [OF opt(2)] False "2.prems"(2) opt(1)
      have "a0 = a" by auto
      with consume_optional_effect [OF opt(2)] "2.prems"(3) show ?thesis by auto
    next
      case pos
      from consume_positionals_effect [OF pos(2)] obtain p :: positional and dd v tl' where
        "t # ts = (dd @ Arg v # tl') @ ts1" "list_all is_Dash dd" "list_all (tail_ok (pnargs p)) tl'"
        by blast
      with slice_no_opt [of dd "pnargs p" tl' "Some a" s e v] "2.prems"(2) False
      have False by (metis Un_iff set_append)
      then show ?thesis ..
    qed
    moreover from consume_written [OF c p1]
    have "ns st' (dest a) = ns st1 (dest a) \<or> (\<exists>v. ns st' (dest a) = Some v \<and> stores ts1 (dest a) v)"
      by simp
    ultimately show ?thesis using k1 by (auto simp: stores_def)
  qed
qed

lemma wf_toks_after_dashes:
  "wf_toks (Dashes # ts) \<Longrightarrow> t \<in> set ts \<Longrightarrow> \<not> is_Dash t \<and> is_arg t"
  by (auto simp: list_all_iff is_Dash_def is_arg_def)

lemma get_values_One:
  assumes wf: "wf_toks (dd @ Arg v # tl' @ rest)"
    and dd: "list_all is_Dash dd" and tl: "list_all is_Dash tl'"
  shows "get_values One (map raw (dd @ Arg v # tl')) = PStr v"
proof (cases dd)
  case Nil
  with wf have v: "v \<noteq> ''--''" and w: "wf_toks (tl' @ rest)" by auto
  have "tl' = [] \<or> tl' = [Dashes]"
  proof (cases tl')
    case Nil then show ?thesis by simp
  next
    case (Cons t tl'')
    with tl have t: "t = Dashes" by (simp add: is_Dash_def)
    have "tl'' = []"
    proof (cases tl'')
      case Nil then show ?thesis .
    next
      case (Cons u us)
      with tl \<open>tl' = t # tl''\<close> have "is_Dash u" by simp
      moreover from w t \<open>tl' = t # tl''\<close> Cons have "\<not> is_Dash u"
        by (auto simp: is_Dash_def)
      ultimately show ?thesis by simp
    qed
    with t Cons show ?thesis by simp
  qed
  with Nil v show ?thesis by (auto simp: get_values_def)
next
  case (Cons d dd')
  with dd have d: "d = Dashes" by (simp add: is_Dash_def)
  have "dd' = []"
  proof (cases dd')
    case Nil then show ?thesis .
  next
    case (Cons u us)
    with dd \<open>dd = d # dd'\<close> have "is_Dash u" by simp
    moreover from wf d \<open>dd = d # dd'\<close> Cons have "\<not> is_Dash u"
      by (auto simp: is_Dash_def)
    ultimately show ?thesis by simp
  qed
  moreover have "tl' = []"
  proof (cases tl')
    case Nil then show ?thesis .
  next
    case (Cons u us)
    with tl have "is_Dash u" by simp
    moreover from wf d \<open>dd = d # dd'\<close> Cons have "\<not> is_Dash u"
      by (auto simp: is_Dash_def)
    ultimately show ?thesis by simp
  qed
  ultimately show ?thesis using Cons d by (simp add: get_values_def)
qed

lemma subseq_remove1: "subseq (remove1 x xs) xs"
  by (induction xs) auto

lemma get_values_One_or_more:
  assumes wf: "wf_toks (dd @ Arg v # tl' @ rest)"
    and dd: "list_all is_Dash dd"
  shows "\<exists>vs. get_values One_or_more (map raw (dd @ Arg v # tl')) = PList vs \<and> vs \<noteq> [] \<and>
              subseq vs (map raw (dd @ Arg v # tl'))"
proof -
  let ?strs = "map raw (dd @ Arg v # tl')"
  have "remove1 ''--'' ?strs \<noteq> []"
  proof (cases dd)
    case Nil
    with wf have "v \<noteq> ''--''" by simp
    with Nil show ?thesis by simp
  next
    case (Cons d dd')
    with dd have "d = Dashes" by (simp add: is_Dash_def)
    with Cons show ?thesis by simp
  qed
  then show ?thesis
    by (simp add: get_values_def subseq_remove1)
qed

lemma wf_toks_next:
  assumes n: "consume_next st (t # ts) = Inr (st1, ts1)" and wf: "wf_toks (t # ts)"
    and o: "\<not> is_arg t"
  shows "wf_toks ts1"
  using n
proof (cases rule: consume_next_cases)
  case (opt a s e)
  from consume_optional_effect [OF opt(2)] opt(1) wf show ?thesis by auto
next
  case pos
  with o show ?thesis by simp
qed

lemma consume_positional_value:
  "consume st ts = Inr st' \<Longrightarrow> positionals st = Some p \<Longrightarrow> positionals st' = None \<Longrightarrow>
   wf_toks ts \<Longrightarrow>
   (\<And>a s e. Opt (Some a) s e \<in> set ts \<Longrightarrow> dest a \<noteq> pdest p) \<Longrightarrow>
   \<exists>pre dd v tl' rest. ts = pre @ (dd @ Arg v # tl') @ rest \<and> wf_toks (dd @ Arg v # tl' @ rest) \<and>
      list_all is_Dash dd \<and> list_all (tail_ok (pnargs p)) tl' \<and>
      ns st' (pdest p) = Some (get_values (pnargs p) (map raw (dd @ Arg v # tl')))"
proof (induction st ts rule: consume.induct)
  case (1 st)
  then show ?case by simp
next
  case (2 st t ts)
  from "2.prems"(1) obtain st1 ts1 where n: "consume_next st (t # ts) = Inr (st1, ts1)"
    and c: "consume st1 ts1 = Inr st'" by (rule consume_Cons)
  note sub = consume_next_subset [OF n]
  from n show ?case
  proof (cases rule: consume_next_cases)
    case (opt a s e)
    from consume_optional_effect [OF opt(2)]
    have p1: "positionals st1 = Some p" and r: "ts1 = ts \<or> (\<exists>x. ts = Arg x # ts1)"
      using "2.prems"(2) by auto
    from opt(1) have "\<not> is_arg t" by (simp add: is_arg_def)
    from wf_toks_next [OF n "2.prems"(4) this] have wf1: "wf_toks ts1" .
    from "2.IH" [OF n refl c p1 "2.prems"(3) wf1] "2.prems"(5) sub
    obtain pre dd v tl' rest where
      ts1: "ts1 = pre @ (dd @ Arg v # tl') @ rest" and
      rest: "wf_toks (dd @ Arg v # tl' @ rest)" "list_all is_Dash dd"
        "list_all (tail_ok (pnargs p)) tl'"
        "ns st' (pdest p) = Some (get_values (pnargs p) (map raw (dd @ Arg v # tl')))"
      by blast
    from r ts1 obtain pre' where "t # ts = pre' @ (dd @ Arg v # tl') @ rest"
      by (metis append_Cons)
    with rest show ?thesis by blast
  next
    case pos
    from consume_positionals_effect [OF pos(2)] "2.prems"(2)
    obtain dd v tl' where p1: "positionals st1 = None"
      and v: "ns st1 = (ns st)(pdest p \<mapsto> get_values (pnargs p) (map raw (dd @ Arg v # tl')))"
      and ts: "t # ts = (dd @ Arg v # tl') @ ts1"
      and sh: "list_all is_Dash dd" "list_all (tail_ok (pnargs p)) tl'"
      by auto
    from consume_written [OF c, of "pdest p"] p1
    have "ns st' (pdest p) = ns st1 (pdest p) \<or>
          (\<exists>v. ns st' (pdest p) = Some v \<and> stores ts1 (pdest p) v)" by simp
    moreover have "\<not> stores ts1 (pdest p) x" for x
      using "2.prems"(5) sub unfolding stores_def by blast
    ultimately have "ns st' (pdest p) = Some (get_values (pnargs p) (map raw (dd @ Arg v # tl')))"
      using v by simp
    moreover from ts "2.prems"(4) have "wf_toks (dd @ Arg v # tl' @ ts1)" by simp
    moreover from ts have "t # ts = [] @ (dd @ Arg v # tl') @ ts1" by simp
    ultimately show ?thesis using sh by blast
  qed
qed

subsection \<open>The parsed namespace\<close>

lemma parse_known_args_Inr:
  assumes "parse_known_args P rest = Inr sub"
  obtains ts st' where "classify P rest = Inr ts"
    "consume \<lparr>ns = initial_namespace P, positionals = positional P, seen = []\<rparr> ts = Inr st'"
    "required_present P st'" "sub = ns st'"
  using assms by (auto simp: parse_known_args_def split: sum.splits if_splits)

lemma parse_args_Cons:
  assumes "parse_args (name # rest) = Inr n"
  obtains P sub where "map_of name_parser_map name = Some P" "P \<in> set subparsers"
    "parse_known_args P rest = Inr sub" "n = [''action'' \<mapsto> PStr name] ++ sub"
proof -
  from assms obtain P sub where m: "map_of name_parser_map name = Some P"
    and p: "parse_known_args P rest = Inr sub" and n: "n = [''action'' \<mapsto> PStr name] ++ sub"
    by (auto simp: parse_args_def split: option.splits sum.splits)
  from m have "(name, P) \<in> set name_parser_map" by (rule map_of_SomeD)
  then have "P \<in> set subparsers" by (force simp: subparsers_def)
  with m p n that show ?thesis by blast
qed

lemma stored_token:
  assumes P: "P \<in> set subparsers" and c: "classify P rest = Inr ts"
    and o: "Opt (Some a) s e \<in> set ts" and k: "kind a \<noteq> Help"
  shows "a \<in> set (optionals P) \<and> s \<in> set rest \<and>
         (\<exists>x. option_strings a = [x] \<and> spells x s \<and>
            (e = None \<or> (e = Some (snd (snd (partition_eq s))) \<and> CHR ''='' \<in> set s)))"
proof -
  from classify_opt [OF c o] have s: "s \<in> set rest"
    and po: "parse_optional P s = Inr (Some (Some a, e))" by auto
  from parse_optional_spells [OF subparsers_long_only [OF P] po] k s show ?thesis by blast
qed

lemma option_value:
  assumes P: "P \<in> set subparsers" and df: "dest_flag P d flag k"
    and pk: "parse_known_args P rest = Inr sub"
  shows "sub d = initial_namespace P d \<or>
         (\<exists>s \<in> set rest. spells flag s \<and>
            ((k = Store_true \<and> sub d = Some (PBool True)) \<or>
             (\<exists>cs x. k = Store cs \<and> check_value cs x \<and> sub d = Some (PStr x) \<and>
                (x \<in> set rest \<or> (x = snd (snd (partition_eq s)) \<and> CHR ''='' \<in> set s)))))"
proof -
  from pk obtain ts st' where c: "classify P rest = Inr ts"
    and co: "consume \<lparr>ns = initial_namespace P, positionals = positional P, seen = []\<rparr> ts = Inr st'"
    and sub: "sub = ns st'" by (rule parse_known_args_Inr)
  from df have pd: "\<And>p. positional P = Some p \<Longrightarrow> pdest p \<noteq> d"
    by (auto simp: dest_flag_def)
  from consume_written [OF co, of d] pd sub
  have "sub d = initial_namespace P d \<or> (\<exists>v. sub d = Some v \<and> stores ts d v)" by simp
  then show ?thesis
  proof
    assume "sub d = initial_namespace P d" then show ?thesis ..
  next
    assume "\<exists>v. sub d = Some v \<and> stores ts d v"
    then obtain v a s e where v: "sub d = Some v" and o: "Opt (Some a) s e \<in> set ts"
      and d: "dest a = d"
      and w: "(kind a = Store_true \<and> v = PBool True) \<or>
         (\<exists>cs x. kind a = Store cs \<and> check_value cs x \<and> v = PStr x \<and>
            (e = Some x \<or> (e = None \<and> Arg x \<in> set ts)))"
      unfolding stores_def by blast
    from w have nh: "kind a \<noteq> Help" by auto
    from stored_token [OF P c o nh] obtain x where a: "a \<in> set (optionals P)"
      and s: "s \<in> set rest" and x: "option_strings a = [x]" and sp: "spells x s"
      and e: "e = None \<or> (e = Some (snd (snd (partition_eq s))) \<and> CHR ''='' \<in> set s)" by blast
    from df a d x have ka: "kind a = k" and xf: "x = flag"
      by (auto simp: dest_flag_def list_all_iff)
    have "(k = Store_true \<and> sub d = Some (PBool True)) \<or>
             (\<exists>cs x. k = Store cs \<and> check_value cs x \<and> sub d = Some (PStr x) \<and>
                (x \<in> set rest \<or> (x = snd (snd (partition_eq s)) \<and> CHR ''='' \<in> set s)))"
      using w ka v e classify_arg [OF c] by auto
    with s sp xf show ?thesis by blast
  qed
qed

lemma untouched:
  assumes no: "no_option P d" and pd: "\<And>p. positional P = Some p \<Longrightarrow> pdest p \<noteq> d"
    and pk: "parse_known_args P rest = Inr sub"
  shows "sub d = initial_namespace P d"
proof -
  from pk obtain ts st' where c: "classify P rest = Inr ts"
    and co: "consume \<lparr>ns = initial_namespace P, positionals = positional P, seen = []\<rparr> ts = Inr st'"
    and sub: "sub = ns st'" by (rule parse_known_args_Inr)
  have "a \<in> set (optionals P)" if "Opt (Some a) s e \<in> set ts" for a s e
  proof -
    from classify_opt [OF c that] have "parse_optional P s = Inr (Some (Some a, e))" by simp
    then have "(\<exists>x. (x, a) \<in> set (option_string_actions P)) \<or> (a, e) \<in> set (get_option_tuples P s)"
      by (auto simp: parse_optional_def split_beta dest!: map_of_SomeD
               split: if_splits option.splits list.splits)
    then show ?thesis
      by (auto simp: get_option_tuples_def dest: osa_optionals split: if_splits)
  qed
  with no have "\<not> stores ts d v" for v
    unfolding stores_def no_option_def list_all_iff by blast
  with consume_written [OF co, of d] pd sub show ?thesis by auto
qed

lemma positional_value:
  assumes P: "P \<in> set subparsers" and p: "positional P = Some p" and no: "no_option P (pdest p)"
    and pk: "parse_known_args P rest = Inr sub"
  shows "(pnargs p = One \<longrightarrow> (\<exists>v. sub (pdest p) = Some (PStr v) \<and> v \<in> set rest)) \<and>
         (pnargs p = One_or_more \<longrightarrow>
            (\<exists>vs. sub (pdest p) = Some (PList vs) \<and> vs \<noteq> [] \<and> subseq vs rest))"
proof -
  from pk obtain ts st' where c: "classify P rest = Inr ts"
    and co: "consume \<lparr>ns = initial_namespace P, positionals = positional P, seen = []\<rparr> ts = Inr st'"
    and rq: "required_present P st'"
    and sub: "sub = ns st'" by (rule parse_known_args_Inr)
  from rq have fin: "positionals st' = None" by (simp add: required_present_def)
  have nd: "dest a \<noteq> pdest p" if "Opt (Some a) s e \<in> set ts" for a s e
  proof -
    from classify_opt [OF c that] have "parse_optional P s = Inr (Some (Some a, e))" by simp
    then have "(\<exists>x. (x, a) \<in> set (option_string_actions P)) \<or> (a, e) \<in> set (get_option_tuples P s)"
      by (auto simp: parse_optional_def split_beta dest!: map_of_SomeD
               split: if_splits option.splits list.splits)
    then have "a \<in> set (optionals P)"
      by (auto simp: get_option_tuples_def dest: osa_optionals split: if_splits)
    with no show ?thesis by (auto simp: no_option_def list_all_iff)
  qed
  from consume_positional_value [OF co _ fin classify_wf [OF c], of p] p nd
  obtain pre dd v tl' rest' where ts: "ts = pre @ (dd @ Arg v # tl') @ rest'"
    and wf: "wf_toks (dd @ Arg v # tl' @ rest')"
    and dd: "list_all is_Dash dd" and tl: "list_all (tail_ok (pnargs p)) tl'"
    and val: "ns st' (pdest p) = Some (get_values (pnargs p) (map raw (dd @ Arg v # tl')))"
    by auto
  from classify_raw [OF c] ts
  have rest: "rest = map raw pre @ map raw (dd @ Arg v # tl') @ map raw rest'" by auto
  show ?thesis
  proof (intro conjI impI)
    assume one: "pnargs p = One"
    with tl have "list_all is_Dash tl'" by (simp add: tail_ok_def list_all_iff)
    from get_values_One [OF wf dd this] val sub one rest
    show "\<exists>v. sub (pdest p) = Some (PStr v) \<and> v \<in> set rest" by auto
  next
    assume more: "pnargs p = One_or_more"
    from get_values_One_or_more [OF wf dd] obtain vs where
      g: "get_values One_or_more (map raw (dd @ Arg v # tl')) = PList vs" and ne: "vs \<noteq> []"
      and ss: "subseq vs (map raw (dd @ Arg v # tl'))" by blast
    have "subseq (map raw (dd @ Arg v # tl')) rest"
      unfolding rest by (meson list_emb_append2 list_emb_prefix subseq_order.order_refl)
    with ss have "subseq vs rest" by (rule subseq_order.order_trans)
    with g ne val sub more
    show "\<exists>vs. sub (pdest p) = Some (PList vs) \<and> vs \<noteq> [] \<and> subseq vs rest" by auto
  qed
qed

subsection \<open>What every subcommand shares\<close>

lemma common_flags:
  "list_all (\<lambda>P. dest_flag P ''binding'' ''--binding'' (Store None) \<and>
                  dest_flag P ''config'' ''--config'' (Store None) \<and>
                  dest_flag P ''dry_run'' ''--dry-run'' Store_true \<and>
                  no_option P ''func'' \<and> no_option P ''action'' \<and>
                  list_all (\<lambda>d. case positional P of None \<Rightarrow> True | Some p \<Rightarrow> pdest p \<noteq> d)
                    [''func'', ''action'']) subparsers"
  by code_simp

lemma common_initial:
  "list_all (\<lambda>P. initial_namespace P ''binding'' = Some (PStr ''wx_binding'') \<and>
                  initial_namespace P ''config'' = Some PNone \<and>
                  initial_namespace P ''dry_run'' = Some (PBool False) \<and>
                  initial_namespace P ''action'' = None) subparsers"
  by code_simp

lemma func_initial:
  "map (\<lambda>(name, P). (name, initial_namespace P ''func'')) name_parser_map =
   map (\<lambda>(name, f). (name, Some (PFunc f))) action_func"
  by code_simp

lemma parsed_common:
  assumes "parse_args (name # rest) = Inr n"
  obtains P sub f c b d where
    "map_of name_parser_map name = Some P" "P \<in> set subparsers"
    "parse_known_args P rest = Inr sub" "n = [''action'' \<mapsto> PStr name] ++ sub"
    "(name, f) \<in> set action_func"
    "n ''action'' = Some (PStr name)" "n ''func'' = Some (PFunc f)"
    "n ''config'' = Some c" "c = PNone \<or> (\<exists>x. c = PStr x)"
    "n ''binding'' = Some (PStr b)" "n ''dry_run'' = Some (PBool d)"
proof -
  from assms obtain P sub where m: "map_of name_parser_map name = Some P"
    and P: "P \<in> set subparsers" and pk: "parse_known_args P rest = Inr sub"
    and n: "n = [''action'' \<mapsto> PStr name] ++ sub" by (rule parse_args_Cons)
  from P common_flags have fl: "dest_flag P ''binding'' ''--binding'' (Store None)"
      "dest_flag P ''config'' ''--config'' (Store None)"
      "dest_flag P ''dry_run'' ''--dry-run'' Store_true"
      "no_option P ''func''" "no_option P ''action''"
      "\<And>p. positional P = Some p \<Longrightarrow> pdest p \<noteq> ''func''"
      "\<And>p. positional P = Some p \<Longrightarrow> pdest p \<noteq> ''action''"
    by (auto simp: list_all_iff)
  from P common_initial have i: "initial_namespace P ''binding'' = Some (PStr ''wx_binding'')"
      "initial_namespace P ''config'' = Some PNone"
      "initial_namespace P ''dry_run'' = Some (PBool False)"
      "initial_namespace P ''action'' = None"
    by (auto simp: list_all_iff)
  from m have "(name, P) \<in> set name_parser_map" by (rule map_of_SomeD)
  then have "(name, initial_namespace P ''func'') \<in>
     set (map (\<lambda>(name, P). (name, initial_namespace P ''func'')) name_parser_map)" by force
  then obtain f where f: "(name, f) \<in> set action_func"
    and fi: "initial_namespace P ''func'' = Some (PFunc f)"
    unfolding func_initial by auto
  from untouched [OF fl(4) fl(6) pk] fi have sf: "sub ''func'' = Some (PFunc f)" by simp
  from untouched [OF fl(5) fl(7) pk] i have sa: "sub ''action'' = None" by simp
  from option_value [OF P fl(1) pk] i obtain b where sb: "sub ''binding'' = Some (PStr b)" by auto
  from option_value [OF P fl(2) pk] i obtain c where sc: "sub ''config'' = Some c"
    and c: "c = PNone \<or> (\<exists>x. c = PStr x)" by auto
  from option_value [OF P fl(3) pk] i obtain d where sd: "sub ''dry_run'' = Some (PBool d)" by auto
  from n sf sa sb sc sd have r: "n ''action'' = Some (PStr name)" "n ''func'' = Some (PFunc f)"
    "n ''config'' = Some c" "n ''binding'' = Some (PStr b)" "n ''dry_run'' = Some (PBool d)"
    by (simp_all add: map_add_def)
  show ?thesis by (rule that [OF m P pk n f r(1) r(2) r(3) c r(4) r(5)])
qed

subsection \<open>Options given on the command line\<close>

lemma consume_optional_stores:
  assumes "consume_optional a e st ts = Inr (st1, ts1)"
  shows "\<exists>v. ns st1 (dest a) = Some v \<and> stores (Opt (Some a) s e # ts) (dest a) v"
proof -
  from consume_optional_effect [OF assms] obtain v where
    v: "ns st1 = (ns st)(dest a \<mapsto> v)" and
    k: "(kind a = Store_true \<and> e = None \<and> v = PBool True \<and> ts1 = ts) \<or>
        (\<exists>cs x. kind a = Store cs \<and> check_value cs x \<and> v = PStr x \<and>
           ((e = Some x \<and> ts1 = ts) \<or> (e = None \<and> ts = Arg x # ts1)))" by blast
  have "stores (Opt (Some a) s e # ts) (dest a) v"
    unfolding stores_def
    by (rule exI [of _ a], rule exI [of _ s], rule exI [of _ e]) (use k in auto)
  with v show ?thesis by simp
qed

lemma consume_taken:
  "consume st ts = Inr st' \<Longrightarrow> Opt (Some a) s e \<in> set ts \<Longrightarrow>
   (\<And>p. positionals st = Some p \<Longrightarrow> pdest p \<noteq> dest a) \<Longrightarrow>
   \<exists>v. ns st' (dest a) = Some v \<and> stores ts (dest a) v"
proof (induction st ts rule: consume.induct)
  case (1 st)
  then show ?case by simp
next
  case (2 st t ts)
  from "2.prems"(1) obtain st1 ts1 where n: "consume_next st (t # ts) = Inr (st1, ts1)"
    and c: "consume st1 ts1 = Inr st'" by (rule consume_Cons)
  note sub = consume_next_subset [OF n]
  from consume_next_pending [OF n] "2.prems"(3)
  have p1: "\<And>p. positionals st1 = Some p \<Longrightarrow> pdest p \<noteq> dest a" by auto
  show ?case
  proof (cases "Opt (Some a) s e \<in> set ts1")
    case True
    from "2.IH" [OF n refl c True p1] stores_mono [OF _ sub] show ?thesis by blast
  next
    case False
    from n have "\<exists>v. ns st1 (dest a) = Some v \<and> stores (t # ts) (dest a) v"
    proof (cases rule: consume_next_cases)
      case (opt a0 s0 e0)
      from consume_optional_effect [OF opt(2)] False "2.prems"(2) opt(1)
      have "a0 = a" by auto
      with consume_optional_stores [OF opt(2), of s0] opt(1) show ?thesis by simp
    next
      case pos
      from consume_positionals_effect [OF pos(2)] obtain p :: positional and dd v tl' where
        "t # ts = (dd @ Arg v # tl') @ ts1" "list_all is_Dash dd" "list_all (tail_ok (pnargs p)) tl'"
        by blast
      with slice_no_opt [of dd "pnargs p" tl' "Some a" s e v] "2.prems"(2) False
      have False by (metis Un_iff set_append)
      then show ?thesis ..
    qed
    moreover from consume_written [OF c p1]
    have "ns st' (dest a) = ns st1 (dest a) \<or> (\<exists>v. ns st' (dest a) = Some v \<and> stores ts1 (dest a) v)"
      by simp
    ultimately show ?thesis using stores_mono [OF _ sub] by metis
  qed
qed

lemma classify_optionals:
  assumes c: "classify P rest = Inr ts" and o: "Opt (Some a) s e \<in> set ts"
  shows "a \<in> set (optionals P)"
proof -
  from classify_opt [OF c o] have "parse_optional P s = Inr (Some (Some a, e))" by simp
  then have "(\<exists>x. (x, a) \<in> set (option_string_actions P)) \<or> (a, e) \<in> set (get_option_tuples P s)"
    by (auto simp: parse_optional_def split_beta dest!: map_of_SomeD
             split: if_splits option.splits list.splits)
  then show ?thesis
    by (auto simp: get_option_tuples_def dest: osa_optionals split: if_splits)
qed

lemma stores_spelled:
  assumes P: "P \<in> set subparsers" and df: "dest_flag P d flag k"
    and c: "classify P rest = Inr ts" and st: "stores ts d v"
  shows "\<exists>s \<in> set rest. spells flag s \<and>
            ((k = Store_true \<and> v = PBool True) \<or>
             (\<exists>cs x. k = Store cs \<and> check_value cs x \<and> v = PStr x \<and>
                (x \<in> set rest \<or> (x = snd (snd (partition_eq s)) \<and> CHR ''='' \<in> set s))))"
proof -
  from st obtain a s e where o: "Opt (Some a) s e \<in> set ts"
      and d: "dest a = d"
      and w: "(kind a = Store_true \<and> v = PBool True) \<or>
         (\<exists>cs x. kind a = Store cs \<and> check_value cs x \<and> v = PStr x \<and>
            (e = Some x \<or> (e = None \<and> Arg x \<in> set ts)))"
    unfolding stores_def by blast
  from w have nh: "kind a \<noteq> Help" by auto
  from stored_token [OF P c o nh] obtain x where a: "a \<in> set (optionals P)"
      and s: "s \<in> set rest" and x: "option_strings a = [x]" and sp: "spells x s"
      and e: "e = None \<or> (e = Some (snd (snd (partition_eq s))) \<and> CHR ''='' \<in> set s)" by blast
  from df a d x have ka: "kind a = k" and xf: "x = flag"
    by (auto simp: dest_flag_def list_all_iff)
  have "(k = Store_true \<and> v = PBool True) \<or>
             (\<exists>cs x. k = Store cs \<and> check_value cs x \<and> v = PStr x \<and>
                (x \<in> set rest \<or> (x = snd (snd (partition_eq s)) \<and> CHR ''='' \<in> set s)))"
    using w ka e classify_arg [OF c] by auto
  with s sp xf show ?thesis by blast
qed

text \<open>An option that is required, or given literally before any \<open>--\<close>, has its value stored.\<close>

lemma classify_exact:
  "classify P ss = Inr ts \<Longrightarrow> s \<in> set (takeWhile (\<lambda>x. x \<noteq> ''--'') ss) \<Longrightarrow>
   map_of (option_string_actions P) s = Some a \<Longrightarrow> take 1 s = ''-'' \<Longrightarrow>
   Opt (Some a) s None \<in> set ts"
proof (induction ss arbitrary: ts)
  case Nil then show ?case by simp
next
  case (Cons x ss)
  from Cons.prems(2) have x: "x \<noteq> ''--''" by (auto split: if_splits)
  with Cons.prems(1) obtain r ts' where r: "parse_optional P x = Inr r"
    and c: "classify P ss = Inr ts'"
    and ts: "ts = (case r of None \<Rightarrow> Arg x | Some (a, e) \<Rightarrow> Opt a x e) # ts'"
    by (auto split: sum.splits)
  show ?case
  proof (cases "s = x")
    case True
    with Cons.prems(3,4) r have "r = Some (Some a, None)"
      by (auto simp: parse_optional_def split: if_splits)
    with ts True show ?thesis by simp
  next
    case False
    with Cons.prems(2) x have "s \<in> set (takeWhile (\<lambda>x. x \<noteq> ''--'') ss)" by simp
    from Cons.IH [OF c this Cons.prems(3,4)] ts show ?thesis by simp
  qed
qed

subsection \<open>The calls of the dispatch functions\<close>

lemma option_given:
  assumes P: "P \<in> set subparsers" and df: "dest_flag P d flag k"
    and a: "a \<in> set (optionals P)" "dest a = d" "required a"
    and pk: "parse_known_args P rest = Inr sub"
  shows "\<exists>v. sub d = Some v \<and> (\<exists>s \<in> set rest. spells flag s \<and>
            ((k = Store_true \<and> v = PBool True) \<or>
             (\<exists>cs x. k = Store cs \<and> check_value cs x \<and> v = PStr x \<and>
                (x \<in> set rest \<or> (x = snd (snd (partition_eq s)) \<and> CHR ''='' \<in> set s)))))"
proof -
  from pk obtain ts st' where c: "classify P rest = Inr ts"
    and co: "consume \<lparr>ns = initial_namespace P, positionals = positional P, seen = []\<rparr> ts = Inr st'"
    and rq: "required_present P st'"
    and sub: "sub = ns st'" by (rule parse_known_args_Inr)
  from df have pd: "\<And>p. positional P = Some p \<Longrightarrow> pdest p \<noteq> d"
    by (auto simp: dest_flag_def)
  from rq a have "d \<in> set (seen st')" by (auto simp: required_present_def list_all_iff)
  from consume_seen [OF co this] pd obtain a' s e where o: "Opt (Some a') s e \<in> set ts"
    and d: "dest a' = d" by auto
  from consume_taken [OF co o] pd d sub obtain v where v: "sub d = Some v" and st: "stores ts d v"
    by auto
  from stores_spelled [OF P df c st] v show ?thesis by blast
qed

lemma rebuild_flags:
  "dest_flag database_rebuild_parser ''date'' ''--date'' (Store None) \<and>
   dest_flag database_rebuild_parser ''from_date'' ''--from'' (Store None) \<and>
   dest_flag database_rebuild_parser ''to_date'' ''--to'' (Store None) \<and>
   initial_namespace database_rebuild_parser ''date'' = Some PNone \<and>
   initial_namespace database_rebuild_parser ''from_date'' = Some PNone \<and>
   initial_namespace database_rebuild_parser ''to_date'' = Some PNone"
  by code_simp

lemma add_column_flags:
  "dest_flag add_column_parser ''column_type'' ''--type'' (Store (Some type_choices)) \<and>
   initial_namespace add_column_parser ''column_type'' = Some (PStr ''REAL'') \<and>
   positional add_column_parser = Some \<lparr>pdest = ''column_name'', pnargs = One\<rparr> \<and>
   no_option add_column_parser ''column_name''"
  by code_simp

lemma rename_column_flags:
  "dest_flag rename_column_parser ''new_name'' ''--to-name'' (Store None) \<and>
   list_ex (\<lambda>a. dest a = ''new_name'' \<and> required a) (optionals rename_column_parser) \<and>
   positional rename_column_parser = Some \<lparr>pdest = ''column_name'', pnargs = One\<rparr> \<and>
   no_option rename_column_parser ''column_name''"
  by code_simp

lemma drop_columns_flags:
  "positional drop_columns_parser = Some \<lparr>pdest = ''column_names'', pnargs = One_or_more\<rparr> \<and>
   no_option drop_columns_parser ''column_names''"
  by code_simp

lemma parser_of_name:
  "map_of name_parser_map ''create'' = Some database_create_parser"
  "map_of name_parser_map ''drop-daily'' = Some database_drop_daily_parser"
  "map_of name_parser_map ''rebuild-daily'' = Some database_rebuild_parser"
  "map_of name_parser_map ''add-column'' = Some add_column_parser"
  "map_of name_parser_map ''rename-column'' = Some rename_column_parser"
  "map_of name_parser_map ''drop-columns'' = Some drop_columns_parser"
  by (simp_all add: name_parser_map_def)

lemma invoke_eq:
  "parse_args argv = Inr n \<Longrightarrow> n ''func'' = Some (PFunc f) \<Longrightarrow> invoke argv = call_func f n"
  by (simp add: invoke_def)

lemma map_add_sub: "sub d = Some v \<Longrightarrow> (m ++ sub) d = Some v"
  by (simp add: map_add_def)

text \<open>What each subcommand's dispatch calls, in terms of the parsed namespace.\<close>

lemma invoke_create:
  assumes "parse_args (''create'' # rest) = Inr n"
  obtains c b d where
    "n ''config'' = Some c"
    "n ''binding'' = Some (PStr b)"
    "n ''dry_run'' = Some (PBool d)"
    "invoke (''create'' # rest) = Inr (Call ''create_database'' [c] [(''db_binding'', PStr b), (''dry_run'', PBool d)])"
  using assms
proof (rule parsed_common)
  fix P sub f c b d
  assume "(''create'', f) \<in> set action_func" "n ''func'' = Some (PFunc f)"
    and n: "n ''config'' = Some c" "n ''binding'' = Some (PStr b)" "n ''dry_run'' = Some (PBool d)"
  then have "n ''func'' = Some (PFunc F_create_database)" by (auto simp: action_func_def)
  from invoke_eq [OF assms this] n
  have "invoke (''create'' # rest) =
     Inr (Call ''create_database'' [c] [(''db_binding'', PStr b), (''dry_run'', PBool d)])"
    by (simp add: create_database_def with_attr_def)
  with n show thesis by (rule that)
qed

lemma invoke_drop_daily:
  assumes "parse_args (''drop-daily'' # rest) = Inr n"
  obtains c b d where
    "n ''config'' = Some c"
    "n ''binding'' = Some (PStr b)"
    "n ''dry_run'' = Some (PBool d)"
    "invoke (''drop-daily'' # rest) = Inr (Call ''drop_daily'' [c] [(''db_binding'', PStr b), (''dry_run'', PBool d)])"
  using assms
proof (rule parsed_common)
  fix P sub f c b d
  assume "(''drop-daily'', f) \<in> set action_func" "n ''func'' = Some (PFunc f)"
    and n: "n ''config'' = Some c" "n ''binding'' = Some (PStr b)" "n ''dry_run'' = Some (PBool d)"
  then have "n ''func'' = Some (PFunc F_drop_daily)" by (auto simp: action_func_def)
  from invoke_eq [OF assms this] n
  have "invoke (''drop-daily'' # rest) =
     Inr (Call ''drop_daily'' [c] [(''db_binding'', PStr b), (''dry_run'', PBool d)])"
    by (simp add: drop_daily_def with_attr_def)
  with n show thesis by (rule that)
qed

lemma invoke_rebuild_daily:
  assumes "parse_args (''rebuild-daily'' # rest) = Inr n"
  obtains c b d dt fr to where
    "n ''config'' = Some c"
    "n ''binding'' = Some (PStr b)"
    "n ''dry_run'' = Some (PBool d)"
    "n ''date'' = Some dt"
    "n ''from_date'' = Some fr"
    "n ''to_date'' = Some to"
    "invoke (''rebuild-daily'' # rest) = Inr (Call ''rebuild_daily'' [c] [(''db_binding'', PStr b), (''date'', dt), (''from_date'', fr), (''to_date'', to), (''dry_run'', PBool d)])"
    "(\<forall>s \<in> set rest. \<not> spells ''--date'' s) \<longrightarrow> dt = PNone"
    "(\<forall>s \<in> set rest. \<not> spells ''--from'' s) \<longrightarrow> fr = PNone"
    "(\<forall>s \<in> set rest. \<not> spells ''--to'' s) \<longrightarrow> to = PNone"
  using assms
proof (rule parsed_common)
  fix P sub f c b d
  assume m: "map_of name_parser_map ''rebuild-daily'' = Some P" and P: "P \<in> set subparsers"
    and pk: "parse_known_args P rest = Inr sub"
    and nn: "n = [''action'' \<mapsto> PStr ''rebuild-daily''] ++ sub"
    and "(''rebuild-daily'', f) \<in> set action_func" "n ''func'' = Some (PFunc f)"
    and n: "n ''config'' = Some c" "n ''binding'' = Some (PStr b)" "n ''dry_run'' = Some (PBool d)"
  then have f: "n ''func'' = Some (PFunc F_rebuild_daily)" by (auto simp: action_func_def)
  from m have PP: "P = database_rebuild_parser" by (simp add: parser_of_name)
  from option_value [OF P _ pk, of "''date''" "''--date''" "Store None"] rebuild_flags PP
  obtain dt where dt: "sub ''date'' = Some dt"
    "(\<forall>s \<in> set rest. \<not> spells ''--date'' s) \<longrightarrow> dt = PNone" by auto
  from option_value [OF P _ pk, of "''from_date''" "''--from''" "Store None"] rebuild_flags PP
  obtain fr where fr: "sub ''from_date'' = Some fr"
    "(\<forall>s \<in> set rest. \<not> spells ''--from'' s) \<longrightarrow> fr = PNone" by auto
  from option_value [OF P _ pk, of "''to_date''" "''--to''" "Store None"] rebuild_flags PP
  obtain to where to: "sub ''to_date'' = Some to"
    "(\<forall>s \<in> set rest. \<not> spells ''--to'' s) \<longrightarrow> to = PNone" by auto
  from dt(1) fr(1) to(1)
  have e: "n ''date'' = Some dt" "n ''from_date'' = Some fr" "n ''to_date'' = Some to"
    unfolding nn by (simp_all add: map_add_sub)
  with invoke_eq [OF assms f] n
  have "invoke (''rebuild-daily'' # rest) =
     Inr (Call ''rebuild_daily'' [c]
           [(''db_binding'', PStr b), (''date'', dt), (''from_date'', fr),
            (''to_date'', to), (''dry_run'', PBool d)])"
    by (simp add: rebuild_daily_def with_attr_def)
  from that [OF n e this dt(2) fr(2) to(2)] show thesis .
qed

lemma invoke_add_column:
  assumes "parse_args (''add-column'' # rest) = Inr n"
  obtains c b d cn t where
    "n ''config'' = Some c"
    "n ''binding'' = Some (PStr b)"
    "n ''dry_run'' = Some (PBool d)"
    "n ''column_name'' = Some (PStr cn)"
    "cn \<in> set rest"
    "n ''column_type'' = Some (PStr t)"
    "t = ''REAL'' \<or> t \<in> set type_choices"
    "(\<forall>s \<in> set rest. \<not> spells ''--type'' s) \<longrightarrow> t = ''REAL''"
    "invoke (''add-column'' # rest) = Inr (Call ''add_column'' [c] [(''db_binding'', PStr b), (''column_name'', PStr cn), (''column_type'', PStr (if upper t = ''INT'' then ''INTEGER'' else upper t)), (''dry_run'', PBool d)])"
  using assms
proof (rule parsed_common)
  fix P sub f c b d
  assume m: "map_of name_parser_map ''add-column'' = Some P" and P: "P \<in> set subparsers"
    and pk: "parse_known_args P rest = Inr sub"
    and nn: "n = [''action'' \<mapsto> PStr ''add-column''] ++ sub"
    and "(''add-column'', f) \<in> set action_func" "n ''func'' = Some (PFunc f)"
    and n: "n ''config'' = Some c" "n ''binding'' = Some (PStr b)" "n ''dry_run'' = Some (PBool d)"
  then have f: "n ''func'' = Some (PFunc F_add_column)" by (auto simp: action_func_def)
  from m have PP: "P = add_column_parser" by (simp add: parser_of_name)
  from option_value [OF P _ pk, of "''column_type''" "''--type''" "Store (Some type_choices)"]
    add_column_flags PP
  obtain t where t: "sub ''column_type'' = Some (PStr t)" "t = ''REAL'' \<or> t \<in> set type_choices"
      "(\<forall>s \<in> set rest. \<not> spells ''--type'' s) \<longrightarrow> t = ''REAL''"
    by (auto simp: check_value_def)
  from positional_value [OF P _ _ pk, of "\<lparr>pdest = ''column_name'', pnargs = One\<rparr>"]
    add_column_flags PP
  obtain cn where cn: "sub ''column_name'' = Some (PStr cn)" "cn \<in> set rest" by auto
  from t cn have e: "n ''column_type'' = Some (PStr t)" "n ''column_name'' = Some (PStr cn)"
    unfolding nn by (simp_all add: map_add_sub)
  with invoke_eq [OF assms f] n
  have "invoke (''add-column'' # rest) =
     Inr (Call ''add_column'' [c]
           [(''db_binding'', PStr b), (''column_name'', PStr cn),
            (''column_type'', PStr (if upper t = ''INT'' then ''INTEGER'' else upper t)),
            (''dry_run'', PBool d)])"
    by (simp add: add_column_def with_attr_def Let_def)
  from that [OF n e(2) cn(2) e(1) t(2) t(3) this] show thesis .
qed

lemma invoke_rename_column:
  assumes "parse_args (''rename-column'' # rest) = Inr n"
  obtains c b d old new where
    "n ''config'' = Some c"
    "n ''binding'' = Some (PStr b)"
    "n ''dry_run'' = Some (PBool d)"
    "n ''column_name'' = Some (PStr old)"
    "old \<in> set rest"
    "n ''new_name'' = Some (PStr new)"
    "(\<exists>s \<in> set rest. spells ''--to-name'' s \<and> (new \<in> set rest \<or> (new = snd (snd (partition_eq s)) \<and> CHR ''='' \<in> set s)))"
    "invoke (''rename-column'' # rest) = Inr (Call ''rename_column'' [c] [(''db_binding'', PStr b), (''column_name'', PStr old), (''new_name'', PStr new), (''dry_run'', PBool d)])"
  using assms
proof (rule parsed_common)
  fix P sub f c b d
  assume m: "map_of name_parser_map ''rename-column'' = Some P" and P: "P \<in> set subparsers"
    and pk: "parse_known_args P rest = Inr sub"
    and nn: "n = [''action'' \<mapsto> PStr ''rename-column''] ++ sub"
    and "(''rename-column'', f) \<in> set action_func" "n ''func'' = Some (PFunc f)"
    and n: "n ''config'' = Some c" "n ''binding'' = Some (PStr b)" "n ''dry_run'' = Some (PBool d)"
  then have f: "n ''func'' = Some (PFunc F_rename_column)" by (auto simp: action_func_def)
  from m have PP: "P = rename_column_parser" by (simp add: parser_of_name)
  from rename_column_flags PP obtain a where a: "a \<in> set (optionals P)" "dest a = ''new_name''"
    "required a" by (auto simp: list_ex_iff)
  from option_given [OF P _ a pk, of "''--to-name''" "Store None"] rename_column_flags PP
  obtain new where new: "sub ''new_name'' = Some (PStr new)"
    "\<exists>s \<in> set rest. spells ''--to-name'' s \<and>
              (new \<in> set rest \<or> (new = snd (snd (partition_eq s)) \<and> CHR ''='' \<in> set s))"
    by auto
  from positional_value [OF P _ _ pk, of "\<lparr>pdest = ''column_name'', pnargs = One\<rparr>"]
    rename_column_flags PP
  obtain old where old: "sub ''column_name'' = Some (PStr old)" "old \<in> set rest" by auto
  from new old have e: "n ''new_name'' = Some (PStr new)" "n ''column_name'' = Some (PStr old)"
    unfolding nn by (simp_all add: map_add_sub)
  with invoke_eq [OF assms f] n
  have "invoke (''rename-column'' # rest) =
     Inr (Call ''rename_column'' [c]
           [(''db_binding'', PStr b), (''column_name'', PStr old),
            (''new_name'', PStr new), (''dry_run'', PBool d)])"
    by (simp add: rename_column_def with_attr_def)
  from that [OF n e(2) old(2) e(1) new(2) this] show thesis .
qed

lemma invoke_drop_columns:
  assumes "parse_args (''drop-columns'' # rest) = Inr n"
  obtains c b d names where
    "n ''config'' = Some c"
    "n ''binding'' = Some (PStr b)"
    "n ''dry_run'' = Some (PBool d)"
    "n ''column_names'' = Some (PList names)"
    "names \<noteq> []"
    "subseq names rest"
    "invoke (''drop-columns'' # rest) = Inr (Call ''drop_columns'' [c] [(''db_binding'', PStr b), (''column_names'', PList names), (''dry_run'', PBool d)])"
  using assms
proof (rule parsed_common)
  fix P sub f c b d
  assume m: "map_of name_parser_map ''drop-columns'' = Some P" and P: "P \<in> set subparsers"
    and pk: "parse_known_args P rest = Inr sub"
    and nn: "n = [''action'' \<mapsto> PStr ''drop-columns''] ++ sub"
    and "(''drop-columns'', f) \<in> set action_func" "n ''func'' = Some (PFunc f)"
    and n: "n ''config'' = Some c" "n ''binding'' = Some (PStr b)" "n ''dry_run'' = Some (PBool d)"
  then have f: "n ''func'' = Some (PFunc F_drop_columns)" by (auto simp: action_func_def)
  from m have PP: "P = drop_columns_parser" by (simp add: parser_of_name)
  from positional_value [OF P _ _ pk, of "\<lparr>pdest = ''column_names'', pnargs = One_or_more\<rparr>"]
    drop_columns_flags PP
  obtain names where names: "sub ''column_names'' = Some (PList names)" "names \<noteq> []"
    "subseq names rest" by auto
  from names have e: "n ''column_names'' = Some (PList names)"
    unfolding nn by (simp_all add: map_add_sub)
  with invoke_eq [OF assms f] n
  have "invoke (''drop-columns'' # rest) =
     Inr (Call ''drop_columns'' [c]
           [(''db_binding'', PStr b), (''column_names'', PList names),
            (''dry_run'', PBool d)])"
    by (simp add: drop_columns_def with_attr_def)
  from that [OF n e names(2) names(3) this] show thesis .
qed

lemma parsed_name:
  assumes "parse_args (name # rest) = Inr n"
  shows "name \<in> {''create'', ''drop-daily'', ''rebuild-daily'', ''add-column'',
                  ''rename-column'', ''drop-columns''}"
proof -
  from assms obtain P where "map_of name_parser_map name = Some P"
    by (auto simp: parse_args_def split: option.splits)
  then have "(name, P) \<in> set name_parser_map" by (rule map_of_SomeD)
  then show ?thesis by (auto simp: name_parser_map_def)
qed

subsection \<open>Command lines of a fixed shape\<close>

lemmas engine_defs = parse_args_def parse_known_args_def parse_optional_def get_option_tuples_def
  option_string_actions_def partition_eq_def check_value_def take_action_def get_values_def
  is_Dash_def is_arg_def tail_ok_def required_present_def setdefault_def initial_namespace_def
  negative_number_def number_body_def digits1_def is_digit_def action_required_def
  consume_optional_def consume_positionals_def invoke_def

lemma plain_simps [simp]:
  "plain s \<Longrightarrow> s \<noteq> ''--''"
  "plain s \<Longrightarrow> ''--'' \<noteq> s"
  "plain s \<Longrightarrow> parse_optional P s = Inr None"
  by (auto simp: plain_def parse_optional_def)

lemma c3_family:
  assumes "plain d" "plain f" "plain t"
  shows "invoke [''rebuild-daily'', ''--date'', d, ''--from'', f, ''--to'', t] =
     Inr (Call ''rebuild_daily'' [PNone]
            [(''db_binding'', PStr ''wx_binding''), (''date'', PStr d), (''from_date'', PStr f),
             (''to_date'', PStr t), (''dry_run'', PBool False)])"
proof -
  have o: "parse_optional database_rebuild_parser ''--date'' = Inr (Some (Some (argument ''--date''), None))"
     "parse_optional database_rebuild_parser ''--from'' = Inr (Some (Some ((argument ''--from'')\<lparr>dest := ''from_date''\<rparr>), None))"
     "parse_optional database_rebuild_parser ''--to'' = Inr (Some (Some ((argument ''--to'')\<lparr>dest := ''to_date''\<rparr>), None))"
    by (simp_all add: parse_optional_def option_string_actions_def database_rebuild_parser_def parser_defs)
  have c: "classify database_rebuild_parser [''--date'', d, ''--from'', f, ''--to'', t] =
    Inr [Opt (Some (argument ''--date'')) ''--date'' None, Arg d,
         Opt (Some ((argument ''--from'')\<lparr>dest := ''from_date''\<rparr>)) ''--from'' None, Arg f,
         Opt (Some ((argument ''--to'')\<lparr>dest := ''to_date''\<rparr>)) ''--to'' None, Arg t]"
    using assms by (simp add: o)
  let ?st = "\<lparr>ns = (initial_namespace database_rebuild_parser)
            (''date'' \<mapsto> PStr d, ''from_date'' \<mapsto> PStr f, ''to_date'' \<mapsto> PStr t),
          positionals = None, seen = [''to_date'', ''from_date'', ''date'']\<rparr>"
  have k: "consume \<lparr>ns = initial_namespace database_rebuild_parser,
                     positionals = positional database_rebuild_parser, seen = []\<rparr>
             [Opt (Some (argument ''--date'')) ''--date'' None, Arg d,
              Opt (Some ((argument ''--from'')\<lparr>dest := ''from_date''\<rparr>)) ''--from'' None, Arg f,
              Opt (Some ((argument ''--to'')\<lparr>dest := ''to_date''\<rparr>)) ''--to'' None, Arg t] = Inr ?st"
    by (simp add: consume_optional_def check_value_def take_action_def argument_def
          database_rebuild_parser_def infer_dest_def)
  have r: "required_present database_rebuild_parser ?st"
    by (simp add: required_present_def database_rebuild_parser_def parser_defs)
  have pk: "parse_known_args database_rebuild_parser [''--date'', d, ''--from'', f, ''--to'', t] = Inr (ns ?st)"
    unfolding parse_known_args_def c using k r by simp
  have pa: "parse_args [''rebuild-daily'', ''--date'', d, ''--from'', f, ''--to'', t] =
      Inr ([''action'' \<mapsto> PStr ''rebuild-daily''] ++ ns ?st)"
    by (simp add: parse_args_def parser_of_name pk)
  show ?thesis
    unfolding invoke_def pa
    by (simp add: map_add_def rebuild_daily_def with_attr_def
          initial_namespace_def database_rebuild_parser_def parser_defs setdefault_def)
qed

subsection \<open>Failure is always SystemExit\<close>

lemma consume_next_error: "consume_next st ts = Inl e \<Longrightarrow> e = SystemExit"
  by (cases "(st, ts)" rule: consume_next.cases)
     (auto simp: consume_optional_def consume_positionals_def
           split: action_kind.splits option.splits list.splits tok.splits if_splits)

lemma consume_error: "consume st ts = Inl e \<Longrightarrow> e = SystemExit"
  by (induction st ts rule: consume.induct)
     (auto split: sum.splits dest: consume_next_error)

lemma classify_error: "classify P ss = Inl e \<Longrightarrow> e = SystemExit"
proof (induction ss)
  case Nil then show ?case by simp
next
  case (Cons s ss)
  then show ?case
    by (auto simp: parse_optional_def split_beta
             split: if_splits sum.splits option.splits list.splits)
qed

lemma parse_known_args_error: "parse_known_args P ss = Inl e \<Longrightarrow> e = SystemExit"
  unfolding parse_known_args_def
  by (cases "classify P ss")
     (auto split: sum.splits if_splits dest: consume_error classify_error)

lemma parse_args_error: "parse_args argv = Inl e \<Longrightarrow> e = SystemExit"
proof (cases argv)
  case Nil
  assume "parse_args argv = Inl e"
  with Nil show ?thesis by (simp add: parse_args_def action_required_def)
next
  case (Cons name rest)
  assume "parse_args argv = Inl e"
  with Cons show ?thesis
    by (cases "map_of name_parser_map name")
       (auto simp: parse_args_def split: sum.splits dest: parse_known_args_error)
qed

lemma not_parsed:
  assumes "\<And>n. parse_args argv \<noteq> Inr n"
  shows "parse_args argv = Inl SystemExit"
proof (cases "parse_args argv")
  case (Inl e)
  with parse_args_error [OF Inl] show ?thesis by simp
next
  case (Inr n)
  with assms [of n] show ?thesis by simp
qed

lemma invoke_common:
  assumes "parse_args (name # rest) = Inr n"
  obtains c cf b d where
    "n ''config'' = Some cf" "n ''binding'' = Some (PStr b)" "n ''dry_run'' = Some (PBool d)"
    "invoke (name # rest) = Inr c" "args c = [cf]"
    "kwarg c ''db_binding'' = Some (PStr b)" "kwarg c ''dry_run'' = Some (PBool d)"
proof -
  from parsed_name [OF assms] consider "name = ''create''" | "name = ''drop-daily''"
    | "name = ''rebuild-daily''" | "name = ''add-column''" | "name = ''rename-column''"
    | "name = ''drop-columns''" by fast
  then show thesis
  proof cases
    case 1
    with assms have p: "parse_args (''create'' # rest) = Inr n" by simp
    show thesis
    proof (rule invoke_create [OF p], goal_cases)
      case g: (1 c b d)
      note inv = g(4) [folded 1]
      show ?case
        by (rule that [OF g(1) g(2) g(3) inv]) (simp_all add: kwarg_def)
    qed
  next
    case 2
    with assms have p: "parse_args (''drop-daily'' # rest) = Inr n" by simp
    show thesis
    proof (rule invoke_drop_daily [OF p], goal_cases)
      case g: (1 c b d)
      note inv = g(4) [folded 2]
      show ?case
        by (rule that [OF g(1) g(2) g(3) inv]) (simp_all add: kwarg_def)
    qed
  next
    case 3
    with assms have p: "parse_args (''rebuild-daily'' # rest) = Inr n" by simp
    show thesis
    proof (rule invoke_rebuild_daily [OF p], goal_cases)
      case g: (1 c b d dt fr to)
      note inv = g(7) [folded 3]
      show ?case
        by (rule that [OF g(1) g(2) g(3) inv]) (simp_all add: kwarg_def)
    qed
  next
    case 4
    with assms have p: "parse_args (''add-column'' # rest) = Inr n" by simp
    show thesis
    proof (rule invoke_add_column [OF p], goal_cases)
      case g: (1 c b d cn t)
      note inv = g(9) [folded 4]
      show ?case
        by (rule that [OF g(1) g(2) g(3) inv]) (simp_all add: kwarg_def)
    qed
  next
    case 5
    with assms have p: "parse_args (''rename-column'' # rest) = Inr n" by simp
    show thesis
    proof (rule invoke_rename_column [OF p], goal_cases)
      case g: (1 c b d old new)
      note inv = g(8) [folded 5]
      show ?case
        by (rule that [OF g(1) g(2) g(3) inv]) (simp_all add: kwarg_def)
    qed
  next
    case 6
    with assms have p: "parse_args (''drop-columns'' # rest) = Inr n" by simp
    show thesis
    proof (rule invoke_drop_columns [OF p], goal_cases)
      case g: (1 c b d names)
      note inv = g(7) [folded 6]
      show ?case
        by (rule that [OF g(1) g(2) g(3) inv]) (simp_all add: kwarg_def)
    qed
  qed
qed

lemma omitted_default:
  assumes "P \<in> set subparsers" "dest_flag P d flag k" "parse_known_args P rest = Inr sub"
    and "\<forall>s \<in> set rest. \<not> spells flag s"
  shows "sub d = initial_namespace P d"
  using option_value [OF assms(1-3)] assms(4) by blast

lemma flag_given:
  assumes P: "P \<in> set subparsers" and df: "dest_flag P d flag k"
    and m: "map_of (option_string_actions P) flag = Some a" "dest a = d" "take 1 flag = ''-''"
    and g: "flag \<in> set (takeWhile (\<lambda>s. s \<noteq> ''--'') rest)"
    and pk: "parse_known_args P rest = Inr sub"
  shows "\<exists>v. sub d = Some v \<and>
            ((k = Store_true \<and> v = PBool True) \<or>
             (\<exists>cs x. k = Store cs \<and> check_value cs x \<and> v = PStr x))"
proof -
  from pk obtain ts st' where c: "classify P rest = Inr ts"
    and co: "consume \<lparr>ns = initial_namespace P, positionals = positional P, seen = []\<rparr> ts = Inr st'"
    and sub: "sub = ns st'" by (rule parse_known_args_Inr)
  from df have pd: "\<And>p. positional P = Some p \<Longrightarrow> pdest p \<noteq> d"
    by (auto simp: dest_flag_def)
  from classify_exact [OF c g m(1) m(3)] have o: "Opt (Some a) flag None \<in> set ts" .
  from consume_taken [OF co o] pd m(2) sub obtain v where v: "sub d = Some v"
    and st: "stores ts d v" by auto
  from stores_spelled [OF P df c st] v show ?thesis by blast
qed

lemma dry_run_option:
  "list_all (\<lambda>P. \<exists>a \<in> set (optionals P).
       map_of (option_string_actions P) ''--dry-run'' = Some a \<and> dest a = ''dry_run'') subparsers"
  by (simp add: subparsers_def name_parser_map_def option_string_actions_def
        database_create_parser_def database_drop_daily_parser_def
        database_rebuild_parser_def add_column_parser_def rename_column_parser_def
        drop_columns_parser_def help_action_def config_argument_def binding_argument_def
        dry_run_argument_def type_argument_def to_name_argument_def argument_def store_true_def
        infer_dest_def)

lemma normalized_choices:
  "list_all (\<lambda>t. (if upper t = ''INT'' then ''INTEGER'' else upper t) \<in> set [''REAL'', ''INTEGER''])
     (''REAL'' # type_choices)"
  by code_simp

subsection \<open>The type of a new column\<close>

lemma type_flag:
  "parse_optional add_column_parser ''--type'' = Inr (Some (Some type_argument, None))"
  "parse_optional add_column_parser (''--type='' @ v) = Inr (Some (Some type_argument, Some v))"
  by (simp_all add: parse_optional_def option_string_actions_def add_column_parser_def
        partition_eq_def help_action_def type_argument_def config_argument_def
        binding_argument_def dry_run_argument_def argument_def store_true_def)

lemma add_column_start:
  "initial_namespace add_column_parser =
     [''column_name'' \<mapsto> PNone, ''column_type'' \<mapsto> PStr ''REAL'', ''config'' \<mapsto> PNone,
      ''binding'' \<mapsto> PStr ''wx_binding'', ''dry_run'' \<mapsto> PBool False,
      ''func'' \<mapsto> PFunc F_add_column]"
  "positional add_column_parser = Some \<lparr>pdest = ''column_name'', pnargs = One\<rparr>"
  by (simp_all add: initial_namespace_def add_column_parser_def setdefault_def
        help_action_def type_argument_def config_argument_def
        binding_argument_def dry_run_argument_def argument_def store_true_def infer_dest_def)

lemma type_argument_simps:
  "kind type_argument = Store (Some type_choices)" "dest type_argument = ''column_type''"
  by (simp_all add: type_argument_def argument_def)

lemma add_column_required:
  "required_present add_column_parser st = (positionals st = None)"
  by (simp add: required_present_def add_column_parser_def
        help_action_def type_argument_def config_argument_def
        binding_argument_def dry_run_argument_def argument_def store_true_def)

lemma type_explicit:
  assumes "plain n"
  shows "isl (parse_args [''add-column'', n, ''--type='' @ v]) \<longleftrightarrow> v \<notin> set type_choices"
proof -
  have c: "classify add_column_parser [n, ''--type='' @ v] =
      Inr [Arg n, Opt (Some type_argument) (''--type='' @ v) (Some v)]"
    using assms by (simp add: type_flag [unfolded append_Cons append_Nil])
  have k: "isl (consume \<lparr>ns = initial_namespace add_column_parser,
                     positionals = positional add_column_parser, seen = []\<rparr>
             [Arg n, Opt (Some type_argument) (''--type='' @ v) (Some v)]) \<longleftrightarrow> v \<notin> set type_choices"
    by (simp add: add_column_start consume_positionals_def consume_optional_def
          type_argument_simps check_value_def tail_ok_def is_Dash_def)
  have p: "positionals st = None"
    if "consume \<lparr>ns = initial_namespace add_column_parser,
                     positionals = positional add_column_parser, seen = []\<rparr>
             [Arg n, Opt (Some type_argument) (''--type='' @ v) (Some v)] = Inr st" for st
    using that
    by (auto simp: add_column_start consume_positionals_def consume_optional_def
          type_argument_simps check_value_def tail_ok_def is_Dash_def take_action_def
          split: if_splits)
  have "isl (parse_known_args add_column_parser [n, ''--type='' @ v]) \<longleftrightarrow> v \<notin> set type_choices"
    unfolding parse_known_args_def c using k p
    by (auto simp: add_column_required split: sum.splits)
  then show ?thesis
    by (auto simp: parse_args_def parser_of_name split: sum.splits)
qed

lemma type_separate:
  assumes "plain n"
  shows "isl (parse_args [''add-column'', n, ''--type'', v]) \<longleftrightarrow> v \<notin> set type_choices"
proof -
  have pl: "plain v" if "v \<in> set type_choices"
    using that by (auto simp: type_choices_def plain_def)
  have c: "classify add_column_parser [n, ''--type'', v] = Inl SystemExit \<or>
    (\<exists>x. classify add_column_parser [n, ''--type'', v] =
           Inr [Arg n, Opt (Some type_argument) ''--type'' None, x] \<and>
         (x = Arg v \<or> x = Dashes \<or> (\<exists>a e. x = Opt a v e)) \<and>
         (v \<in> set type_choices \<longrightarrow> x = Arg v))"
  proof (cases "v = ''--''")
    case True
    with assms pl [unfolded plain_def] show ?thesis by (auto simp: type_flag)
  next
    case False
    show ?thesis
    proof (cases "parse_optional add_column_parser v")
      case (Inl e)
      with classify_error [of add_column_parser "[v]" e] False have "e = SystemExit" by simp
      with Inl assms False show ?thesis by (simp add: type_flag)
    next
      case (Inr r)
      with assms False pl show ?thesis
        by (cases r) (auto simp: type_flag)
    qed
  qed
  let ?st = "\<lparr>ns = initial_namespace add_column_parser,
                     positionals = positional add_column_parser, seen = []\<rparr>"
  have k: "isl (consume ?st [Arg n, Opt (Some type_argument) ''--type'' None, x]) \<longleftrightarrow>
            \<not> (x = Arg v \<and> v \<in> set type_choices)"
    if "x = Arg v \<or> x = Dashes \<or> (\<exists>a e. x = Opt a v e)" for x
    using that
    by (auto simp: add_column_start consume_positionals_def consume_optional_def
          type_argument_simps check_value_def tail_ok_def is_Dash_def)
  have p: "positionals st = None"
    if "consume ?st [Arg n, Opt (Some type_argument) ''--type'' None, x] = Inr st" for st x
    using that
    by (cases x)
       (auto simp: add_column_start consume_positionals_def consume_optional_def
          type_argument_simps check_value_def tail_ok_def is_Dash_def take_action_def
          split: if_splits)
  have "isl (parse_known_args add_column_parser [n, ''--type'', v]) \<longleftrightarrow> v \<notin> set type_choices"
    using c
  proof
    assume e: "classify add_column_parser [n, ''--type'', v] = Inl SystemExit"
    have "v \<notin> set type_choices"
    proof
      assume "v \<in> set type_choices"
      from pl [OF this] assms have "classify add_column_parser [n, ''--type'', v] =
         Inr [Arg n, Opt (Some type_argument) ''--type'' None, Arg v]"
        by (simp add: type_flag)
      with e show False by simp
    qed
    with e show ?thesis by (simp add: parse_known_args_def)
  next
    assume "\<exists>x. classify add_column_parser [n, ''--type'', v] =
           Inr [Arg n, Opt (Some type_argument) ''--type'' None, x] \<and>
         (x = Arg v \<or> x = Dashes \<or> (\<exists>a e. x = Opt a v e)) \<and>
         (v \<in> set type_choices \<longrightarrow> x = Arg v)"
    then obtain x where cx: "classify add_column_parser [n, ''--type'', v] =
           Inr [Arg n, Opt (Some type_argument) ''--type'' None, x]"
      and x: "x = Arg v \<or> x = Dashes \<or> (\<exists>a e. x = Opt a v e)"
      and xv: "v \<in> set type_choices \<longrightarrow> x = Arg v" by fast
    show ?thesis
      unfolding parse_known_args_def cx using k [OF x] p [of x] xv
      by (auto simp: add_column_required split: sum.splits)
  qed
  then show ?thesis
    by (auto simp: parse_args_def parser_of_name split: sum.splits)
qed

subsection \<open>Renaming and dropping columns\<close>


lemma classify_plain: "list_all plain ss \<Longrightarrow> classify P ss = Inr (map Arg ss)"
  by (induction ss) simp_all

lemma drop_columns_family:
  assumes ne: "names \<noteq> []" and pl: "list_all plain names"
  shows "invoke (''drop-columns'' # names) =
     Inr (Call ''drop_columns'' [PNone]
            [(''db_binding'', PStr ''wx_binding''), (''column_names'', PList names),
             (''dry_run'', PBool False)])"
proof -
  from ne obtain x xs where names: "names = x # xs" by (cases names) auto
  from pl have nd: "''--'' \<notin> set names" by (auto simp: list_all_iff plain_def)
  let ?st = "\<lparr>ns = (initial_namespace drop_columns_parser)(''column_names'' \<mapsto> PList names),
          positionals = None, seen = [''column_names'']\<rparr>"
  have tw: "takeWhile (tail_ok One_or_more) (map Arg xs) = map Arg xs"
       "dropWhile (tail_ok One_or_more) (map Arg xs) = []"
    by (simp_all add: takeWhile_eq_all_conv tail_ok_def is_arg_def)
  have k: "consume \<lparr>ns = initial_namespace drop_columns_parser,
                     positionals = positional drop_columns_parser, seen = []\<rparr>
             (map Arg names) = Inr ?st"
    using nd unfolding names
    by (simp add: consume_positionals_def take_action_def drop_columns_parser_def get_values_def
          is_Dash_def tw comp_def remove1_idem)
  have r: "required_present drop_columns_parser ?st"
    by (simp add: required_present_def drop_columns_parser_def
          help_action_def config_argument_def
          binding_argument_def dry_run_argument_def argument_def store_true_def)
  have pk: "parse_known_args drop_columns_parser names = Inr (ns ?st)"
    unfolding parse_known_args_def classify_plain [OF pl] using k r by simp
  have pa: "parse_args (''drop-columns'' # names) =
      Inr ([''action'' \<mapsto> PStr ''drop-columns''] ++ ns ?st)"
    by (simp add: parse_args_def parser_of_name pk)
  show ?thesis
    unfolding invoke_def pa
    by (simp add: map_add_def drop_columns_def with_attr_def
          initial_namespace_def drop_columns_parser_def setdefault_def
          help_action_def config_argument_def
          binding_argument_def dry_run_argument_def argument_def store_true_def infer_dest_def)
qed

lemma drop_columns_no_names: "parse_args [''drop-columns''] = Inl SystemExit"
  by (simp add: parse_args_def parser_of_name parse_known_args_def required_present_def
        drop_columns_parser_def)

subsection \<open>Dispatch and parsing\<close>

lemma invoke_parsed: "invoke argv = Inr c \<Longrightarrow> \<exists>n. parse_args argv = Inr n"
  by (simp add: invoke_def split: sum.splits)

lemma invoke_not_parsed: "parse_args argv = Inl e \<Longrightarrow> invoke argv = Inl e"
  by (simp add: invoke_def)

subsection \<open>A flag that is spelled is read as its option\<close>











subsection \<open>The operands of a parsed command line\<close>

lemma classified_Cons:
  assumes c: "classify P (map raw (t # ts)) = Inr (t # ts)" and d: "t \<noteq> Dashes"
  shows "classify P (map raw ts) = Inr ts" and "raw t \<noteq> ''--''"
    and "(case t of Arg s \<Rightarrow> parse_optional P s = Inr None
          | Opt a s e \<Rightarrow> parse_optional P s = Inr (Some (a, e)) | Dashes \<Rightarrow> False)"
proof -
  show n: "raw t \<noteq> ''--''"
  proof
    assume "raw t = ''--''"
    with c have "t = Dashes" by simp
    with d show False ..
  qed
  from c n obtain r ts' where r: "parse_optional P (raw t) = Inr r"
    and cs: "classify P (map raw ts) = Inr ts'"
    and e: "t # ts = (case r of None \<Rightarrow> Arg (raw t) | Some (a, e) \<Rightarrow> Opt a (raw t) e) # ts'"
    by (auto split: sum.splits)
  from e have "ts' = ts" by simp
  with cs show "classify P (map raw ts) = Inr ts" by simp
  from e have "t = (case r of None \<Rightarrow> Arg (raw t) | Some (a, e) \<Rightarrow> Opt a (raw t) e)" by simp
  with r d show "(case t of Arg s \<Rightarrow> parse_optional P s = Inr None
          | Opt a s e \<Rightarrow> parse_optional P s = Inr (Some (a, e)) | Dashes \<Rightarrow> False)"
    by (cases t; cases r) (auto split: prod.splits)
qed

lemma classified_suffix:
  "classify P (map raw (us @ ts)) = Inr (us @ ts) \<Longrightarrow> Dashes \<notin> set us \<Longrightarrow>
   classify P (map raw ts) = Inr ts"
proof (induction us)
  case Nil
  then show ?case by simp
next
  case (Cons u us)
  from Cons.prems have c: "classify P (map raw (u # (us @ ts))) = Inr (u # (us @ ts))"
    and d: "u \<noteq> Dashes" by auto
  from classified_Cons(1) [OF c d] Cons.prems(2) show ?case by (intro Cons.IH) auto
qed

lemma wf_toks_behind_dashes:
  "wf_toks (us @ ts) \<Longrightarrow> Dashes \<in> set us \<Longrightarrow> list_all is_arg ts"
proof (induction us)
  case Nil
  then show ?case by simp
next
  case (Cons u us)
  show ?case
  proof (cases u)
    case (Arg s)
    with Cons show ?thesis by simp
  next
    case Dashes
    with Cons.prems(1) have "\<forall>t \<in> set ts. \<exists>s. t = Arg s" by (simp add: list_all_iff)
    then show ?thesis by (fastforce simp: list_all_iff is_arg_def)
  next
    case (Opt a s e)
    with Cons show ?thesis by simp
  qed
qed

lemma consume_no_positional:
  assumes "consume st ts = Inr st'" "positionals st = None" "list_all is_arg ts"
  shows "ts = []"
proof (cases ts)
  case Nil
  then show ?thesis .
next
  case (Cons t ts')
  with assms(3) have "is_arg t" by simp
  then have "consume_next st (t # ts') = consume_positionals st (t # ts')"
    by (cases t) (simp_all add: is_arg_def)
  with assms(2) have "consume_next st (t # ts') = Inl SystemExit"
    by (simp add: consume_positionals_def)
  with assms(1) Cons show ?thesis by simp
qed

lemma consume_positionals_block:
  assumes "consume_positionals st ts = Inr (st1, ts1)"
  obtains p us where "positionals st = Some p" "positionals st1 = None" "ts = us @ ts1"
    "list_all is_arg us" "us \<noteq> []"
    "ns st1 = (ns st)(pdest p \<mapsto> get_values (pnargs p) (map raw us))"
proof -
  from consume_positionals_effect [OF assms] obtain p :: positional and dd v tl' where
    e: "positionals st = Some p" "positionals st1 = None"
      "ns st1 = (ns st)(pdest p \<mapsto> get_values (pnargs p) (map raw (dd @ Arg v # tl')))"
      "ts = (dd @ Arg v # tl') @ ts1" "list_all is_Dash dd" "list_all (tail_ok (pnargs p)) tl'"
    by blast
  have a: "is_arg t" if "is_Dash t" for t using that by (simp add: is_Dash_def is_arg_def)
  have b: "is_arg t" if "tail_ok (pnargs p) t" for t
    using that a by (cases "pnargs p") (simp_all add: tail_ok_def)
  from e(5,6) a b have "list_all is_arg (dd @ Arg v # tl')"
    by (auto simp: list_all_iff is_arg_def)
  with e(1,2,4,3) show ?thesis by (intro that [of p "dd @ Arg v # tl'"]) simp_all
qed

lemma block_operands:
  assumes "classify P (map raw (us @ ts)) = Inr (us @ ts)" "list_all is_arg us"
    "Dashes \<in> set us \<longrightarrow> ts = []"
  shows "operands P (map raw (us @ ts)) = remove1 ''--'' (map raw us) @ operands P (map raw ts)"
  using assms
proof (induction us)
  case Nil
  then show ?case by simp
next
  case (Cons u us)
  show ?case
  proof (cases "u = Dashes")
    case True
    with Cons.prems(3) show ?thesis by simp
  next
    case False
    from Cons.prems(1) have c: "classify P (map raw (u # (us @ ts))) = Inr (u # (us @ ts))"
      by simp
    note f = classified_Cons [OF c False]
    from Cons.prems(2) False obtain s where u: "u = Arg s" by (cases u) (auto simp: is_arg_def)
    from f(2,3) u have s: "s \<noteq> ''--''" "parse_optional P s = Inr None" by simp_all
    from Cons.prems have "operands P (map raw (us @ ts)) =
        remove1 ''--'' (map raw us) @ operands P (map raw ts)"
      by (intro Cons.IH f(1)) auto
    with s u show ?thesis by simp
  qed
qed

lemma no_operands:
  "consume st ts = Inr st' \<Longrightarrow> positionals st = None \<Longrightarrow>
   classify P (map raw ts) = Inr ts \<Longrightarrow> operands P (map raw ts) = []"
proof (induction st ts rule: consume.induct)
  case (1 st)
  then show ?case by simp
next
  case (2 st t ts)
  from consume_Cons [OF "2.prems"(1)] obtain st1 ts1 where
    n: "consume_next st (t # ts) = Inr (st1, ts1)" and r: "consume st1 ts1 = Inr st'" by blast
  from n show ?case
  proof (cases rule: consume_next_cases)
    case (opt a s e)
    then have d: "t \<noteq> Dashes" by simp
    note f = classified_Cons [OF "2.prems"(3) d]
    from f(2,3) opt(1) have s: "s \<noteq> ''--''" "parse_optional P s = Inr (Some (Some a, e))"
      by simp_all
    from consume_optional_effect [OF opt(2)] have p1: "positionals st1 = None"
      and cases: "(kind a = Store_true \<and> e = None \<and> ts1 = ts) \<or>
        (\<exists>cs x. kind a = Store cs \<and> ((e = Some x \<and> ts1 = ts) \<or> (e = None \<and> ts = Arg x # ts1)))"
      using "2.prems"(2) by auto
    from cases show ?thesis
    proof (elim disjE exE conjE)
      assume a: "kind a = Store_true" "e = None" "ts1 = ts"
      from f(1) a(3) have c1: "classify P (map raw ts1) = Inr ts1" by simp
      from "2.IH" [OF n refl r p1 c1] a(3) have "operands P (map raw ts) = []" by simp
      with s a opt(1) show ?thesis by simp
    next
      fix cs x
      assume a: "kind a = Store cs" "e = Some x" "ts1 = ts"
      from f(1) a(3) have c1: "classify P (map raw ts1) = Inr ts1" by simp
      from "2.IH" [OF n refl r p1 c1] a(3) have "operands P (map raw ts) = []" by simp
      with s a opt(1) show ?thesis by simp
    next
      fix cs x
      assume a: "kind a = Store cs" "e = None" "ts = Arg x # ts1"
      from f(1) a(3) have "classify P (map raw (Arg x # ts1)) = Inr (Arg x # ts1)" by simp
      from classified_Cons(1) [OF this] have c1: "classify P (map raw ts1) = Inr ts1" by simp
      from "2.IH" [OF n refl r p1 c1] have "operands P (map raw ts1) = []" .
      with s a opt(1) show ?thesis by simp
    qed
  next
    case pos
    with "2.prems"(2) show ?thesis by (simp add: consume_positionals_def)
  qed
qed

lemma optional_step:
  assumes o: "consume_optional a e st ts = Inr (st1, ts1)"
    and c: "classify P (map raw (Opt (Some a) s e # ts)) = Inr (Opt (Some a) s e # ts)"
  shows "classify P (map raw ts1) = Inr ts1"
    and "operands P (map raw (Opt (Some a) s e # ts)) = operands P (map raw ts1)"
    and "s \<noteq> ''--''" and "parse_optional P s = Inr (Some (Some a, e))"
    and "ts1 = ts \<or> (\<exists>x. e = None \<and> ts = Arg x # ts1 \<and> x \<noteq> ''--'' \<and>
                       parse_optional P x = Inr None)"
proof -
  have d: "Opt (Some a) s e \<noteq> Dashes" by simp
  note f = classified_Cons [OF c d]
  from f(2,3) show s: "s \<noteq> ''--''" "parse_optional P s = Inr (Some (Some a, e))" by simp_all
  from consume_optional_effect [OF o]
  have cases: "(kind a = Store_true \<and> e = None \<and> ts1 = ts) \<or>
        (\<exists>cs x. kind a = Store cs \<and> ((e = Some x \<and> ts1 = ts) \<or> (e = None \<and> ts = Arg x # ts1)))"
    by auto
  have "classify P (map raw ts1) = Inr ts1 \<and>
        operands P (map raw (Opt (Some a) s e # ts)) = operands P (map raw ts1) \<and>
        (ts1 = ts \<or> (\<exists>x. e = None \<and> ts = Arg x # ts1 \<and> x \<noteq> ''--'' \<and>
                       parse_optional P x = Inr None))"
    using cases
  proof (elim disjE exE conjE)
    assume a: "kind a = Store_true" "e = None" "ts1 = ts"
    with f(1) s show ?thesis by simp
  next
    fix cs x
    assume a: "kind a = Store cs" "e = Some x" "ts1 = ts"
    with f(1) s show ?thesis by simp
  next
    fix cs x
    assume a: "kind a = Store cs" "e = None" "ts = Arg x # ts1"
    from f(1) a(3) have c': "classify P (map raw (Arg x # ts1)) = Inr (Arg x # ts1)" by simp
    have "Arg x \<noteq> Dashes" by simp
    note g = classified_Cons [OF c' this]
    from g(2,3) have x: "x \<noteq> ''--''" "parse_optional P x = Inr None" by simp_all
    from g(1) s a x show ?thesis by simp
  qed
  then show "classify P (map raw ts1) = Inr ts1"
    and "operands P (map raw (Opt (Some a) s e # ts)) = operands P (map raw ts1)"
    and "ts1 = ts \<or> (\<exists>x. e = None \<and> ts = Arg x # ts1 \<and> x \<noteq> ''--'' \<and>
                       parse_optional P x = Inr None)"
    by simp_all
qed

lemma positional_step:
  assumes b: "consume_positionals st ts = Inr (st1, ts1)"
    and r: "consume st1 ts1 = Inr st'"
    and c: "classify P (map raw ts) = Inr ts"
  obtains p us where "positionals st = Some p" "positionals st1 = None" "ts = us @ ts1"
    "list_all is_arg us" "us \<noteq> []"
    "ns st1 = (ns st)(pdest p \<mapsto> get_values (pnargs p) (map raw us))"
    "Dashes \<in> set us \<longrightarrow> ts1 = []"
    "classify P (map raw ts1) = Inr ts1"
proof -
  from consume_positionals_block [OF b] obtain p us where
    g: "positionals st = Some p" "positionals st1 = None" "ts = us @ ts1"
      "list_all is_arg us" "us \<noteq> []"
      "ns st1 = (ns st)(pdest p \<mapsto> get_values (pnargs p) (map raw us))"
    by blast
  from classify_wf [OF c] g(3) have wf: "wf_toks (us @ ts1)" by simp
  have d: "ts1 = []" if "Dashes \<in> set us"
  proof -
    from wf that have "list_all is_arg ts1" by (rule wf_toks_behind_dashes)
    with r g(2) show ?thesis by (rule consume_no_positional)
  qed
  have c1: "classify P (map raw ts1) = Inr ts1"
  proof (cases "Dashes \<in> set us")
    case True
    with d show ?thesis by simp
  next
    case False
    from c g(3) have "classify P (map raw (us @ ts1)) = Inr (us @ ts1)" by simp
    from this False show ?thesis by (rule classified_suffix)
  qed
  from d have "Dashes \<in> set us \<longrightarrow> ts1 = []" by simp
  from g(1,2,3,4,5,6) this c1 show ?thesis by (rule that)
qed

lemma operands_value:
  "consume st ts = Inr st' \<Longrightarrow> positionals st = Some p \<Longrightarrow> positionals st' = None \<Longrightarrow>
   classify P (map raw ts) = Inr ts \<Longrightarrow>
   (\<And>a s e. Opt (Some a) s e \<in> set ts \<Longrightarrow> dest a \<noteq> pdest p) \<Longrightarrow>
   \<exists>B. ns st' (pdest p) = Some (get_values (pnargs p) B) \<and>
       remove1 ''--'' B = operands P (map raw ts)"
proof (induction st ts rule: consume.induct)
  case (1 st)
  then show ?case by simp
next
  case (2 st t ts)
  from consume_Cons [OF "2.prems"(1)] obtain st1 ts1 where
    n: "consume_next st (t # ts) = Inr (st1, ts1)" and r: "consume st1 ts1 = Inr st'" by blast
  from consume_next_subset [OF n] "2.prems"(5)
  have h1: "\<And>a s e. Opt (Some a) s e \<in> set ts1 \<Longrightarrow> dest a \<noteq> pdest p" by blast
  from n show ?case
  proof (cases rule: consume_next_cases)
    case (opt a s e)
    from "2.prems"(4) opt(1)
    have c: "classify P (map raw (Opt (Some a) s e # ts)) = Inr (Opt (Some a) s e # ts)" by simp
    note f = optional_step [OF opt(2) c]
    from consume_optional_effect [OF opt(2)] "2.prems"(2)
    have p1: "positionals st1 = Some p" by simp
    from "2.IH" [OF n refl r p1 "2.prems"(3) f(1) h1] f(2) opt(1) show ?thesis by simp
  next
    case pos
    from pos(2) r "2.prems"(4) show ?thesis
    proof (rule positional_step, goal_cases)
      case g: (1 p' us)
      from g(1) "2.prems"(2) have pp: "p' = p" by simp
      have o1: "operands P (map raw ts1) = []"
        using r g(2) g(8) by (rule no_operands)
      from "2.prems"(4) g(3) have "classify P (map raw (us @ ts1)) = Inr (us @ ts1)" by simp
      from block_operands [OF this g(4) g(7)] o1 g(3)
      have o: "operands P (map raw (t # ts)) = remove1 ''--'' (map raw us)" by simp
      from g(2) have np: "\<And>q. positionals st1 = Some q \<Longrightarrow> pdest q \<noteq> pdest p" by simp
      from consume_written [OF r np]
      have "ns st' (pdest p) = ns st1 (pdest p) \<or>
            (\<exists>v. ns st' (pdest p) = Some v \<and> stores ts1 (pdest p) v)" by simp
      moreover have "\<not> stores ts1 (pdest p) v" for v
        using h1 by (auto simp: stores_def)
      ultimately have "ns st' (pdest p) = ns st1 (pdest p)" by blast
      with g(6) pp have "ns st' (pdest p) = Some (get_values (pnargs p) (map raw us))" by simp
      with o show ?case by (intro exI [of _ "map raw us"]) simp
    qed
  qed
qed

lemma operands_parsed:
  assumes P: "P \<in> set subparsers" and p: "positional P = Some p" and no: "no_option P (pdest p)"
    and pk: "parse_known_args P rest = Inr sub"
  shows "(pnargs p = One \<longrightarrow> (\<exists>v. sub (pdest p) = Some (PStr v) \<and> operands P rest = [v])) \<and>
         (pnargs p = One_or_more \<longrightarrow>
            sub (pdest p) = Some (PList (operands P rest)) \<and> operands P rest \<noteq> [])"
proof (rule parse_known_args_Inr [OF pk], goal_cases)
  case g: (1 ts st')
  from classify_raw [OF g(1)] g(1) have c: "classify P (map raw ts) = Inr ts" by simp
  from g(3) have e: "positionals st' = None" by (simp add: required_present_def)
  have h: "dest a \<noteq> pdest p" if "Opt (Some a) s e \<in> set ts" for a s e
    using classify_optionals [OF g(1) that] no by (auto simp: no_option_def list_all_iff)
  have ip: "positionals \<lparr>ns = initial_namespace P, positionals = positional P, seen = []\<rparr> = Some p"
    using p by simp
  have "\<exists>B. ns st' (pdest p) = Some (get_values (pnargs p) B) \<and>
       remove1 ''--'' B = operands P (map raw ts)"
  proof (rule operands_value [OF g(2) ip e c])
    fix a s e
    assume "Opt (Some a) s e \<in> set ts"
    then show "dest a \<noteq> pdest p" by (rule h)
  qed
  with classify_raw [OF g(1)] g(4)
  obtain B where B: "sub (pdest p) = Some (get_values (pnargs p) B)"
    "remove1 ''--'' B = operands P rest" by auto
  note pv = positional_value [OF P p no pk]
  show ?case
  proof (intro conjI impI)
    assume one: "pnargs p = One"
    with pv obtain v where v: "sub (pdest p) = Some (PStr v)" by auto
    with B(1) one have "get_values One B = PStr v" by simp
    then have "remove1 ''--'' B = [v]"
      by (cases "remove1 ''--'' B"; cases "tl (remove1 ''--'' B)")
         (auto simp: get_values_def Let_def split: if_splits)
    with B(2) v show "\<exists>v. sub (pdest p) = Some (PStr v) \<and> operands P rest = [v]" by auto
  next
    assume more: "pnargs p = One_or_more"
    with B show "sub (pdest p) = Some (PList (operands P rest))"
      by (simp add: get_values_def Let_def)
    with pv more show "operands P rest \<noteq> []" by auto
  qed
qed

subsection \<open>The value of a flag in a parsed command line\<close>





subsection \<open>The values of rename-column and drop-columns\<close>



lemma drop_columns_values:
  assumes p: "parse_args (''drop-columns'' # rest) = Inr n"
  shows "operands drop_columns_parser rest \<noteq> [] \<and>
         n ''column_names'' = Some (PList (operands drop_columns_parser rest))"
proof (rule parse_args_Cons [OF p], goal_cases)
  case g: (1 P sub)
  from g(1) have PP: "P = drop_columns_parser" by (simp add: parser_of_name)
  note P = g(2) [unfolded PP] and pk = g(3) [unfolded PP]
  note pos = drop_columns_flags [THEN conjunct1]
  have no: "no_option drop_columns_parser
              (pdest \<lparr>pdest = ''column_names'', pnargs = One_or_more\<rparr>)"
    using drop_columns_flags [THEN conjunct2] by simp
  from operands_parsed [OF P pos no pk]
  have o: "sub ''column_names'' = Some (PList (operands drop_columns_parser rest))"
    "operands drop_columns_parser rest \<noteq> []" by auto
  from o(1) have "n ''column_names'' = Some (PList (operands drop_columns_parser rest))"
    unfolding g(4) by (rule map_add_sub)
  with o(2) show ?case by (rule conjI)
qed


section \<open>The properties\<close>

subsection \<open>Normalization of the column type\<close>

text \<open>Claim C1.  Given a namespace whose \<open>column_type\<close> is an ASCII string (and whose
  other attributes are there), the dispatch function of add-column calls the collaborator's
  \<open>add_column\<close> with the column type in upper case, where \<open>INT\<close> becomes
  \<open>INTEGER\<close>.  So \<open>int\<close> in any letter case is forwarded as \<open>INTEGER\<close>,
  \<open>real\<close> in any letter case as \<open>REAL\<close>, and \<open>integer\<close> in any letter case as
  \<open>INTEGER\<close>.\<close>

theorem add_column_normalizes_type:
  assumes "namespace ''column_type'' = Some (PStr s)" and "isascii s"
    and "namespace ''config'' = Some config"
    and "namespace ''binding'' = Some binding"
    and "namespace ''column_name'' = Some column_name"
    and "namespace ''dry_run'' = Some dry_run"
  shows "\<exists>t. add_column namespace =
            Inr (Call ''add_column'' [config]
                  [(''db_binding'', binding), (''column_name'', column_name),
                   (''column_type'', PStr t), (''dry_run'', dry_run)])
          \<and> t = (if upper s = ''INT'' then ''INTEGER'' else upper s)
          \<and> (in_any_case ''int'' s \<longrightarrow> t = ''INTEGER'')
          \<and> (in_any_case ''real'' s \<longrightarrow> t = ''REAL'')
          \<and> (in_any_case ''integer'' s \<longrightarrow> t = ''INTEGER'')"
  using assms upper_int [of s] upper_real [of s] upper_integer [of s]
  by (auto simp: add_column_def with_attr_def Let_def)

theorem add_column_normalizes_type_witness:
  "isascii ''iNt'' \<and> isascii ''ReaL'' \<and> isascii ''Integer'' \<and>
   in_any_case ''int'' ''iNt'' \<and> in_any_case ''real'' ''ReaL'' \<and> in_any_case ''integer'' ''Integer'' \<and>
   add_column [''column_type'' \<mapsto> PStr ''iNt'', ''config'' \<mapsto> PNone,
               ''binding'' \<mapsto> PStr ''wx_binding'', ''column_name'' \<mapsto> PStr ''rain2'',
               ''dry_run'' \<mapsto> PBool False] =
     Inr (Call ''add_column'' [PNone]
           [(''db_binding'', PStr ''wx_binding''), (''column_name'', PStr ''rain2''),
            (''column_type'', PStr ''INTEGER''), (''dry_run'', PBool False)]) \<and>
   add_column [''column_type'' \<mapsto> PStr ''ReaL'', ''config'' \<mapsto> PNone,
               ''binding'' \<mapsto> PStr ''wx_binding'', ''column_name'' \<mapsto> PStr ''rain2'',
               ''dry_run'' \<mapsto> PBool False] =
     Inr (Call ''add_column'' [PNone]
           [(''db_binding'', PStr ''wx_binding''), (''column_name'', PStr ''rain2''),
            (''column_type'', PStr ''REAL''), (''dry_run'', PBool False)]) \<and>
   add_column [''column_type'' \<mapsto> PStr ''Integer'', ''config'' \<mapsto> PNone,
               ''binding'' \<mapsto> PStr ''wx_binding'', ''column_name'' \<mapsto> PStr ''rain2'',
               ''dry_run'' \<mapsto> PBool False] =
     Inr (Call ''add_column'' [PNone]
           [(''db_binding'', PStr ''wx_binding''), (''column_name'', PStr ''rain2''),
            (''column_type'', PStr ''INTEGER''), (''dry_run'', PBool False)])"
proof -
  have v: "in_any_case ''int'' ''iNt''" "in_any_case ''real'' ''ReaL''"
    "in_any_case ''integer'' ''Integer''"
    by (simp_all add: in_any_case_def ascii_lowercase_def ascii_uppercase_def)
  have asc: "isascii ''iNt''" "isascii ''ReaL''" "isascii ''Integer''"
    by (simp_all add: isascii_def)
  let ?n = "\<lambda>s. [''column_type'' \<mapsto> PStr s, ''config'' \<mapsto> PNone,
               ''binding'' \<mapsto> PStr ''wx_binding'', ''column_name'' \<mapsto> PStr ''rain2'',
               ''dry_run'' \<mapsto> PBool False]"
  from add_column_normalizes_type [of "?n ''iNt''" "''iNt''" PNone "PStr ''wx_binding''"
      "PStr ''rain2''" "PBool False"] v(1) asc(1)
  have 1: "add_column (?n ''iNt'') = Inr (Call ''add_column'' [PNone]
           [(''db_binding'', PStr ''wx_binding''), (''column_name'', PStr ''rain2''),
            (''column_type'', PStr ''INTEGER''), (''dry_run'', PBool False)])" by auto
  from add_column_normalizes_type [of "?n ''ReaL''" "''ReaL''" PNone "PStr ''wx_binding''"
      "PStr ''rain2''" "PBool False"] v(2) asc(2)
  have 2: "add_column (?n ''ReaL'') = Inr (Call ''add_column'' [PNone]
           [(''db_binding'', PStr ''wx_binding''), (''column_name'', PStr ''rain2''),
            (''column_type'', PStr ''REAL''), (''dry_run'', PBool False)])" by auto
  from add_column_normalizes_type [of "?n ''Integer''" "''Integer''" PNone "PStr ''wx_binding''"
      "PStr ''rain2''" "PBool False"] v(3) asc(3)
  have 3: "add_column (?n ''Integer'') = Inr (Call ''add_column'' [PNone]
           [(''db_binding'', PStr ''wx_binding''), (''column_name'', PStr ''rain2''),
            (''column_type'', PStr ''INTEGER''), (''dry_run'', PBool False)])" by auto
  from asc v 1 2 3 show ?thesis by simp
qed

subsection \<open>The dispatch functions forward the namespace\<close>

text \<open>Claim C2.  Every dispatch function but that of add-column passes the attributes of the
  namespace on unchanged: the configuration as the one positional argument, and the binding, the
  attributes of the subcommand and the dry-run switch as the keyword arguments
  \<open>db_binding\<close>, ..., \<open>dry_run\<close>, in this order.  Nothing in a call comes from
  anywhere but the namespace.\<close>

theorem dispatch_forwards_namespace:
  assumes "namespace ''config'' = Some config"
    and "namespace ''binding'' = Some binding"
    and "namespace ''dry_run'' = Some dry_run"
  shows "create_database namespace =
           Inr (Call ''create_database'' [config]
                 [(''db_binding'', binding), (''dry_run'', dry_run)]) \<and>
         drop_daily namespace =
           Inr (Call ''drop_daily'' [config]
                 [(''db_binding'', binding), (''dry_run'', dry_run)]) \<and>
         (\<forall>date from_date to_date.
            namespace ''date'' = Some date \<and> namespace ''from_date'' = Some from_date \<and>
            namespace ''to_date'' = Some to_date \<longrightarrow>
            rebuild_daily namespace =
              Inr (Call ''rebuild_daily'' [config]
                    [(''db_binding'', binding), (''date'', date), (''from_date'', from_date),
                     (''to_date'', to_date), (''dry_run'', dry_run)])) \<and>
         (\<forall>column_name new_name.
            namespace ''column_name'' = Some column_name \<and>
            namespace ''new_name'' = Some new_name \<longrightarrow>
            rename_column namespace =
              Inr (Call ''rename_column'' [config]
                    [(''db_binding'', binding), (''column_name'', column_name),
                     (''new_name'', new_name), (''dry_run'', dry_run)])) \<and>
         (\<forall>column_names.
            namespace ''column_names'' = Some column_names \<longrightarrow>
            drop_columns namespace =
              Inr (Call ''drop_columns'' [config]
                    [(''db_binding'', binding), (''column_names'', column_names),
                     (''dry_run'', dry_run)]))"
  using assms
  by (simp add: create_database_def drop_daily_def rebuild_daily_def rename_column_def
        drop_columns_def with_attr_def)

theorem dispatch_forwards_namespace_witness:
  "create_database
     [''config'' \<mapsto> PStr ''/etc/weewx.conf'', ''binding'' \<mapsto> PStr ''wx_binding'',
      ''dry_run'' \<mapsto> PBool True] =
     Inr (Call ''create_database'' [PStr ''/etc/weewx.conf'']
           [(''db_binding'', PStr ''wx_binding''), (''dry_run'', PBool True)]) \<and>
   rebuild_daily
     [''config'' \<mapsto> PNone, ''binding'' \<mapsto> PStr ''wx_binding'', ''dry_run'' \<mapsto> PBool False,
      ''date'' \<mapsto> PNone, ''from_date'' \<mapsto> PStr ''2024-01-01'', ''to_date'' \<mapsto> PStr ''2024-02-01''] =
     Inr (Call ''rebuild_daily'' [PNone]
           [(''db_binding'', PStr ''wx_binding''), (''date'', PNone),
            (''from_date'', PStr ''2024-01-01''), (''to_date'', PStr ''2024-02-01''),
            (''dry_run'', PBool False)]) \<and>
   rename_column
     [''config'' \<mapsto> PNone, ''binding'' \<mapsto> PStr ''wx_binding'', ''dry_run'' \<mapsto> PBool False,
      ''column_name'' \<mapsto> PStr ''soilTemp1'', ''new_name'' \<mapsto> PStr ''soilTemp2''] =
     Inr (Call ''rename_column'' [PNone]
           [(''db_binding'', PStr ''wx_binding''), (''column_name'', PStr ''soilTemp1''),
            (''new_name'', PStr ''soilTemp2''), (''dry_run'', PBool False)]) \<and>
   drop_columns
     [''config'' \<mapsto> PNone, ''binding'' \<mapsto> PStr ''wx_binding'', ''dry_run'' \<mapsto> PBool False,
      ''column_names'' \<mapsto> PList [''soilTemp1'', ''leafWet1'']] =
     Inr (Call ''drop_columns'' [PNone]
           [(''db_binding'', PStr ''wx_binding''),
            (''column_names'', PList [''soilTemp1'', ''leafWet1'']),
            (''dry_run'', PBool False)])"
  using dispatch_forwards_namespace
          [of "[''config'' \<mapsto> PStr ''/etc/weewx.conf'', ''binding'' \<mapsto> PStr ''wx_binding'',
                ''dry_run'' \<mapsto> PBool True]"
              "PStr ''/etc/weewx.conf''" "PStr ''wx_binding''" "PBool True"]
        dispatch_forwards_namespace
          [of "[''config'' \<mapsto> PNone, ''binding'' \<mapsto> PStr ''wx_binding'', ''dry_run'' \<mapsto> PBool False,
                ''date'' \<mapsto> PNone, ''from_date'' \<mapsto> PStr ''2024-01-01'',
                ''to_date'' \<mapsto> PStr ''2024-02-01'']"
              PNone "PStr ''wx_binding''" "PBool False"]
        dispatch_forwards_namespace
          [of "[''config'' \<mapsto> PNone, ''binding'' \<mapsto> PStr ''wx_binding'', ''dry_run'' \<mapsto> PBool False,
                ''column_name'' \<mapsto> PStr ''soilTemp1'', ''new_name'' \<mapsto> PStr ''soilTemp2'']"
              PNone "PStr ''wx_binding''" "PBool False"]
        dispatch_forwards_namespace
          [of "[''config'' \<mapsto> PNone, ''binding'' \<mapsto> PStr ''wx_binding'', ''dry_run'' \<mapsto> PBool False,
                ''column_names'' \<mapsto> PList [''soilTemp1'', ''leafWet1'']]"
              PNone "PStr ''wx_binding''" "PBool False"]
  by simp

subsection \<open>The dates of rebuild-daily\<close>

text \<open>Claim C3.  Whenever a command line of rebuild-daily is parsed, the dispatch function
  forwards the three attributes \<open>date\<close>, \<open>from_date\<close> and \<open>to_date\<close> of the
  namespace as they are, each of them \<open>None\<close> when its flag is omitted.  The parser
  itself does not keep the single date and the range apart: a command line that gives all three
  flags with values that do not begin with a dash is parsed, and all three values reach the
  collaborator.\<close>

theorem rebuild_daily_forwards_dates:
  "(\<forall>n. parse_args (''rebuild-daily'' # rest) = Inr n \<longrightarrow>
      (\<exists>c b d dt fr to.
         n ''date'' = Some dt \<and> n ''from_date'' = Some fr \<and> n ''to_date'' = Some to \<and>
         invoke (''rebuild-daily'' # rest) =
           Inr (Call ''rebuild_daily'' [c]
                 [(''db_binding'', PStr b), (''date'', dt), (''from_date'', fr),
                  (''to_date'', to), (''dry_run'', PBool d)]) \<and>
         ((\<forall>s \<in> set rest. \<not> spells ''--date'' s) \<longrightarrow> dt = PNone) \<and>
         ((\<forall>s \<in> set rest. \<not> spells ''--from'' s) \<longrightarrow> fr = PNone) \<and>
         ((\<forall>s \<in> set rest. \<not> spells ''--to'' s) \<longrightarrow> to = PNone))) \<and>
   (plain d \<and> plain f \<and> plain t \<longrightarrow>
      invoke [''rebuild-daily'', ''--date'', d, ''--from'', f, ''--to'', t] =
        Inr (Call ''rebuild_daily'' [PNone]
              [(''db_binding'', PStr ''wx_binding''), (''date'', PStr d),
               (''from_date'', PStr f), (''to_date'', PStr t), (''dry_run'', PBool False)]))"
proof (intro conjI allI impI)
  fix n
  assume p: "parse_args (''rebuild-daily'' # rest) = Inr n"
  show "\<exists>c b d dt fr to.
         n ''date'' = Some dt \<and> n ''from_date'' = Some fr \<and> n ''to_date'' = Some to \<and>
         invoke (''rebuild-daily'' # rest) =
           Inr (Call ''rebuild_daily'' [c]
                 [(''db_binding'', PStr b), (''date'', dt), (''from_date'', fr),
                  (''to_date'', to), (''dry_run'', PBool d)]) \<and>
         ((\<forall>s \<in> set rest. \<not> spells ''--date'' s) \<longrightarrow> dt = PNone) \<and>
         ((\<forall>s \<in> set rest. \<not> spells ''--from'' s) \<longrightarrow> fr = PNone) \<and>
         ((\<forall>s \<in> set rest. \<not> spells ''--to'' s) \<longrightarrow> to = PNone)"
  proof (rule invoke_rebuild_daily [OF p], goal_cases)
    case g: (1 c b d dt fr to)
    show ?case
      by (rule exI [of _ c], rule exI [of _ b], rule exI [of _ d], rule exI [of _ dt],
          rule exI [of _ fr], rule exI [of _ to])
         (simp add: g)
  qed
next
  assume "plain d \<and> plain f \<and> plain t"
  then show "invoke [''rebuild-daily'', ''--date'', d, ''--from'', f, ''--to'', t] =
        Inr (Call ''rebuild_daily'' [PNone]
              [(''db_binding'', PStr ''wx_binding''), (''date'', PStr d),
               (''from_date'', PStr f), (''to_date'', PStr t), (''dry_run'', PBool False)])"
    by (simp add: c3_family)
qed

theorem rebuild_daily_forwards_dates_witness:
  "plain ''2024-03-01'' \<and> plain ''2024-01-01'' \<and> plain ''2024-02-01'' \<and>
   (\<exists>n. parse_args [''rebuild-daily'', ''--date'', ''2024-03-01'', ''--from'', ''2024-01-01'',
                      ''--to'', ''2024-02-01''] = Inr n \<and>
        n ''date'' = Some (PStr ''2024-03-01'') \<and> n ''from_date'' = Some (PStr ''2024-01-01'') \<and>
        n ''to_date'' = Some (PStr ''2024-02-01'')) \<and>
   invoke [''rebuild-daily'', ''--date'', ''2024-03-01'', ''--from'', ''2024-01-01'',
           ''--to'', ''2024-02-01''] =
     Inr (Call ''rebuild_daily'' [PNone]
           [(''db_binding'', PStr ''wx_binding''), (''date'', PStr ''2024-03-01''),
            (''from_date'', PStr ''2024-01-01''), (''to_date'', PStr ''2024-02-01''),
            (''dry_run'', PBool False)])"
proof -
  let ?rest = "[''--date'', ''2024-03-01'', ''--from'', ''2024-01-01'', ''--to'', ''2024-02-01'']"
  have pl: "plain ''2024-03-01''" "plain ''2024-01-01''" "plain ''2024-02-01''"
    by (simp_all add: plain_def)
  note inst = rebuild_daily_forwards_dates [of ?rest "''2024-03-01''" "''2024-01-01''" "''2024-02-01''"]
  from inst pl have i: "invoke (''rebuild-daily'' # ?rest) =
     Inr (Call ''rebuild_daily'' [PNone]
           [(''db_binding'', PStr ''wx_binding''), (''date'', PStr ''2024-03-01''),
            (''from_date'', PStr ''2024-01-01''), (''to_date'', PStr ''2024-02-01''),
            (''dry_run'', PBool False)])" by simp
  from invoke_parsed [OF i] obtain n where n: "parse_args (''rebuild-daily'' # ?rest) = Inr n" ..
  from inst n obtain c b d dt fr to where
    "n ''date'' = Some dt" "n ''from_date'' = Some fr" "n ''to_date'' = Some to"
    "invoke (''rebuild-daily'' # ?rest) =
           Inr (Call ''rebuild_daily'' [c]
                 [(''db_binding'', PStr b), (''date'', dt), (''from_date'', fr),
                  (''to_date'', to), (''dry_run'', PBool d)])"
    by fast
  with i have "n ''date'' = Some (PStr ''2024-03-01'')" "n ''from_date'' = Some (PStr ''2024-01-01'')"
    "n ''to_date'' = Some (PStr ''2024-02-01'')" by simp_all
  with n have "\<exists>n. parse_args (''rebuild-daily'' # ?rest) = Inr n \<and>
        n ''date'' = Some (PStr ''2024-03-01'') \<and> n ''from_date'' = Some (PStr ''2024-01-01'') \<and>
        n ''to_date'' = Some (PStr ''2024-02-01'')" by (intro exI [of _ n]) simp
  with pl i show ?thesis by simp
qed

text \<open>The two modes are not exclusive here: a single date and the start of a range reach the
  collaborator in one call, neither of them \<open>None\<close>.\<close>

theorem rebuild_daily_exclusive_counterexample:
  "invoke [''rebuild-daily'', ''--date'', ''2024-03-01'', ''--from'', ''2024-01-01''] =
     Inr (Call ''rebuild_daily'' [PNone]
           [(''db_binding'', PStr ''wx_binding''), (''date'', PStr ''2024-03-01''),
            (''from_date'', PStr ''2024-01-01''), (''to_date'', PNone),
            (''dry_run'', PBool False)])"
  by code_simp

subsection \<open>The values of the type flag\<close>

text \<open>Claim C4.  After a column name that does not begin with a dash, \<^verbatim>\<open>--type v\<close> and
  \<^verbatim>\<open>--type=v\<close> are parsed exactly when \<open>v\<close> is one of the five strings
  \<open>REAL\<close>, \<open>INTEGER\<close>, \<open>real\<close>, \<open>integer\<close> and \<open>int\<close>; every other
  value, another letter case of these words included, is refused.\<close>

theorem type_values_accepted:
  assumes "plain name"
  shows "((\<exists>n. parse_args [''add-column'', name, ''--type'', v] = Inr n) \<longleftrightarrow>
            v \<in> {''REAL'', ''INTEGER'', ''real'', ''integer'', ''int''}) \<and>
         ((\<exists>n. parse_args [''add-column'', name, ''--type='' @ v] = Inr n) \<longleftrightarrow>
            v \<in> {''REAL'', ''INTEGER'', ''real'', ''integer'', ''int''})"
proof -
  have s: "set type_choices = {''REAL'', ''INTEGER'', ''real'', ''integer'', ''int''}"
    by (simp add: type_choices_def)
  have e: "(\<exists>n. x = Inr n) \<longleftrightarrow> \<not> isl x" for x :: "py_error + namespace"
    by (cases x) simp_all
  from type_separate [OF assms, of v] type_explicit [OF assms, of v] show ?thesis
    unfolding e s by simp
qed

theorem type_values_accepted_witness:
  "plain ''rain2'' \<and>
   (\<exists>n. parse_args [''add-column'', ''rain2'', ''--type'', ''int''] = Inr n) \<and>
   (\<exists>n. parse_args [''add-column'', ''rain2'', ''--type=integer''] = Inr n) \<and>
   \<not> (\<exists>n. parse_args [''add-column'', ''rain2'', ''--type'', ''Int''] = Inr n) \<and>
   \<not> (\<exists>n. parse_args [''add-column'', ''rain2'', ''--type=float''] = Inr n)"
proof -
  have pl: "plain ''rain2''" by (simp add: plain_def)
  from type_values_accepted [OF pl, of "''int''"] type_values_accepted [OF pl, of "''integer''"]
    type_values_accepted [OF pl, of "''Int''"] type_values_accepted [OF pl, of "''float''"] pl
  show ?thesis by simp
qed

text \<open>The values are compared as they are written: \<open>Real\<close>, a letter case of
  \<open>real\<close>, is refused.\<close>

theorem type_case_insensitive_counterexample:
  "in_any_case ''real'' ''Real'' \<and>
   invoke [''add-column'', ''rain2'', ''--type'', ''Real''] = Inl SystemExit"
proof -
  have "in_any_case ''real'' ''Real''"
    by (simp add: in_any_case_def ascii_lowercase_def ascii_uppercase_def)
  moreover have "invoke [''add-column'', ''rain2'', ''--type'', ''Real''] = Inl SystemExit"
    by code_simp
  ultimately show ?thesis ..
qed

subsection \<open>The action of an invocation\<close>

text \<open>Claim C5.  A parsed invocation selects at most one action.  Either the command line is
  empty, and then the attribute \<open>action\<close> is \<open>None\<close> and no dispatch function
  is bound; or its first string is the name of one of the six subcommands, \<open>action\<close> is
  this name, and \<open>func\<close> is the one dispatch function registered under it.\<close>

theorem at_most_one_action:
  assumes "parse_args argv = Inr n"
  shows "(argv = [] \<and> n ''action'' = Some PNone \<and> n ''func'' = None) \<or>
         (\<exists>name rest f. argv = name # rest \<and> (name, f) \<in> set action_func \<and>
            n ''action'' = Some (PStr name) \<and> n ''func'' = Some (PFunc f) \<and>
            (\<forall>g. (name, g) \<in> set action_func \<longrightarrow> g = f))"
proof (cases argv)
  case Nil
  with assms show ?thesis by (auto simp: parse_args_def action_required_def)
next
  case (Cons name rest)
  with assms have p: "parse_args (name # rest) = Inr n" by simp
  have "distinct (map fst action_func)" by (simp add: action_func_def)
  then have u: "g = f" if "(name, g) \<in> set action_func" "(name, f) \<in> set action_func" for g f
    using that by (rule eq_key_imp_eq_value)
  show ?thesis
  proof (rule parsed_common [OF p], goal_cases)
    case g: (1 P sub f c b d)
    from g(5) u have only: "\<forall>h. (name, h) \<in> set action_func \<longrightarrow> h = f" by fast
    show ?case
      by (rule disjI2, rule exI [of _ name], rule exI [of _ rest], rule exI [of _ f],
          intro conjI)
         (fact Cons g(5) g(6) g(7) only)+
  qed
qed

theorem at_most_one_action_witness:
  "\<exists>n. parse_args [''create''] = Inr n \<and> n ''action'' = Some (PStr ''create'') \<and>
       n ''func'' = Some (PFunc F_create_database)"
proof -
  have "invoke [''create''] = Inr (Call ''create_database'' [PNone]
           [(''db_binding'', PStr ''wx_binding''), (''dry_run'', PBool False)])"
    by code_simp
  from invoke_parsed [OF this] obtain n where n: "parse_args [''create''] = Inr n" ..
  have c: "(''create'', F_create_database) \<in> set action_func" by (simp add: action_func_def)
  from at_most_one_action [OF n] have "n ''action'' = Some (PStr ''create'') \<and>
       n ''func'' = Some (PFunc F_create_database)"
  proof (elim disjE conjE exE)
    assume "[''create''] = []"
    then show ?thesis by simp
  next
    fix name rest f
    assume a: "[''create''] = name # rest" "n ''action'' = Some (PStr name)"
      "n ''func'' = Some (PFunc f)" "\<forall>g. (name, g) \<in> set action_func \<longrightarrow> g = f"
    from a(1) have "name = ''create''" by simp
    with a(4) c have "f = F_create_database" by fast
    with a(2,3) \<open>name = ''create''\<close> show ?thesis by simp
  qed
  with n show ?thesis by (intro exI [of _ n]) simp
qed

text \<open>The subcommand is optional (line 61 does not pass \<open>required\<close>): the empty command line
  is parsed, with no action selected.\<close>

theorem no_action_counterexample:
  "parse_args [] = Inr [''action'' \<mapsto> PNone]"
  by (simp add: parse_args_def action_required_def)

subsection \<open>The default binding\<close>

text \<open>Claim C6.  For every subcommand: when a parsed command line omits \<^verbatim>\<open>--binding\<close>,
  the attribute \<open>binding\<close> of the namespace is the string \<open>wx_binding\<close>, the dispatch
  calls the collaborator, and the keyword argument \<open>db_binding\<close> of the call is this
  string.\<close>

theorem binding_default:
  assumes p: "parse_args (name # rest) = Inr n"
    and om: "\<forall>s \<in> set rest. \<not> spells ''--binding'' s"
  shows "n ''binding'' = Some (PStr ''wx_binding'') \<and>
         (\<exists>c. invoke (name # rest) = Inr c \<and>
              kwarg c ''db_binding'' = Some (PStr ''wx_binding''))"
proof -
  have b: "n ''binding'' = Some (PStr ''wx_binding'')"
  proof (rule parsed_common [OF p], goal_cases)
    case g: (1 P sub f c b d)
    from g(2) common_flags have fl: "dest_flag P ''binding'' ''--binding'' (Store None)"
      by (simp add: list_all_iff)
    from g(2) common_initial have i: "initial_namespace P ''binding'' = Some (PStr ''wx_binding'')"
      by (simp add: list_all_iff)
    from omitted_default [OF g(2) fl g(3) om] i
    have "sub ''binding'' = Some (PStr ''wx_binding'')" by simp
    then show ?case unfolding g(4) by (rule map_add_sub)
  qed
  show ?thesis
  proof (rule invoke_common [OF p], goal_cases)
    case g: (1 c cf b' d)
    from g(2) [symmetric] b have "Some (PStr b') = Some (PStr ''wx_binding'')" by (rule trans)
    then have e: "b' = ''wx_binding''" by (simp only: option.inject pyval.inject)
    from g(6) have k: "kwarg c ''db_binding'' = Some (PStr ''wx_binding'')" unfolding e .
    have "\<exists>c. invoke (name # rest) = Inr c \<and>
              kwarg c ''db_binding'' = Some (PStr ''wx_binding'')"
    proof (rule exI [of _ c], rule conjI)
      show "invoke (name # rest) = Inr c" by (fact g(4))
      show "kwarg c ''db_binding'' = Some (PStr ''wx_binding'')" by (fact k)
    qed
    with b show ?case by (rule conjI)
  qed
qed

theorem binding_default_witness:
  "\<not> spells ''--binding'' ''soilTemp1'' \<and> \<not> spells ''--binding'' ''--dry-run'' \<and>
   (\<exists>n. parse_args [''drop-columns'', ''soilTemp1'', ''--dry-run''] = Inr n \<and>
        n ''binding'' = Some (PStr ''wx_binding'')) \<and>
   (\<exists>c. invoke [''drop-columns'', ''soilTemp1'', ''--dry-run''] = Inr c \<and>
        kwarg c ''db_binding'' = Some (PStr ''wx_binding''))"
proof -
  have om: "\<forall>s \<in> set [''soilTemp1'', ''--dry-run'']. \<not> spells ''--binding'' s"
    by (simp add: spells_def partition_eq_def)
  have "invoke [''drop-columns'', ''soilTemp1'', ''--dry-run''] =
     Inr (Call ''drop_columns'' [PNone]
           [(''db_binding'', PStr ''wx_binding''), (''column_names'', PList [''soilTemp1'']),
            (''dry_run'', PBool True)])"
    by code_simp
  from invoke_parsed [OF this] obtain n where
    n: "parse_args [''drop-columns'', ''soilTemp1'', ''--dry-run''] = Inr n" ..
  note r = binding_default [OF n om]
  have "\<exists>n. parse_args [''drop-columns'', ''soilTemp1'', ''--dry-run''] = Inr n \<and>
        n ''binding'' = Some (PStr ''wx_binding'')"
  proof (rule exI [of _ n], rule conjI)
    show "parse_args [''drop-columns'', ''soilTemp1'', ''--dry-run''] = Inr n" by (fact n)
    show "n ''binding'' = Some (PStr ''wx_binding'')" by (rule r [THEN conjunct1])
  qed
  note 1 = this
  from om have "\<not> spells ''--binding'' ''soilTemp1''" "\<not> spells ''--binding'' ''--dry-run''"
    by simp_all
  from this 1 r [THEN conjunct2] show ?thesis by (intro conjI)
qed

subsection \<open>The new name of rename-column\<close>



subsection \<open>The names of drop-columns\<close>

text \<open>Claim C8.  A command line of drop-columns with no operand is refused with SystemExit.
  Whenever a command line of drop-columns is parsed, it has operands, and the dispatch forwards
  the list of all its operands, in the order of the command line, as the keyword argument
  \<open>column_names\<close>.  A command line that consists of one or more names that do not begin
  with a dash is parsed, its operands are these names, and exactly this list is forwarded.\<close>

theorem drop_columns_names:
  "(operands drop_columns_parser rest = [] \<longrightarrow>
      parse_args (''drop-columns'' # rest) = Inl SystemExit \<and>
      invoke (''drop-columns'' # rest) = Inl SystemExit) \<and>
   (parse_args (''drop-columns'' # rest) = Inr n \<longrightarrow>
      operands drop_columns_parser rest \<noteq> [] \<and>
      n ''column_names'' = Some (PList (operands drop_columns_parser rest)) \<and>
      (\<exists>c b d.
         invoke (''drop-columns'' # rest) =
           Inr (Call ''drop_columns'' [c]
                 [(''db_binding'', PStr b),
                  (''column_names'', PList (operands drop_columns_parser rest)),
                  (''dry_run'', PBool d)]))) \<and>
   (column_names \<noteq> [] \<and> list_all plain column_names \<longrightarrow>
      operands drop_columns_parser column_names = column_names \<and>
      invoke (''drop-columns'' # column_names) =
        Inr (Call ''drop_columns'' [PNone]
              [(''db_binding'', PStr ''wx_binding''), (''column_names'', PList column_names),
               (''dry_run'', PBool False)]))"
proof (intro conjI impI)
  assume z: "operands drop_columns_parser rest = []"
  show e: "parse_args (''drop-columns'' # rest) = Inl SystemExit"
  proof (rule not_parsed, rule notI)
    fix m
    assume p: "parse_args (''drop-columns'' # rest) = Inr m"
    from drop_columns_values [OF p, THEN conjunct1] z show False by (rule notE)
  qed
  then show "invoke (''drop-columns'' # rest) = Inl SystemExit" by (rule invoke_not_parsed)
next
  assume p: "parse_args (''drop-columns'' # rest) = Inr n"
  note v = drop_columns_values [OF p]
  show "operands drop_columns_parser rest \<noteq> []" by (rule v [THEN conjunct1])
  show "n ''column_names'' = Some (PList (operands drop_columns_parser rest))"
    by (rule v [THEN conjunct2])
  show "\<exists>c b d.
         invoke (''drop-columns'' # rest) =
           Inr (Call ''drop_columns'' [c]
                 [(''db_binding'', PStr b),
                  (''column_names'', PList (operands drop_columns_parser rest)),
                  (''dry_run'', PBool d)])"
  proof (rule invoke_drop_columns [OF p], goal_cases)
    case g: (1 c b d names)
    from g(4) [symmetric] v [THEN conjunct2]
    have "Some (PList names) = Some (PList (operands drop_columns_parser rest))" by (rule trans)
    then have o: "names = operands drop_columns_parser rest"
      by (simp only: option.inject pyval.inject)
    show ?case
      by (rule exI [of _ c], rule exI [of _ b], rule exI [of _ d]) (fact g(7) [unfolded o])
  qed
next
  assume a: "column_names \<noteq> [] \<and> list_all plain column_names"
  then have ne: "column_names \<noteq> []" and pl: "list_all plain column_names"
    by (rule conjunct1, rule conjunct2)
  from ne pl show i: "invoke (''drop-columns'' # column_names) =
        Inr (Call ''drop_columns'' [PNone]
              [(''db_binding'', PStr ''wx_binding''), (''column_names'', PList column_names),
               (''dry_run'', PBool False)])"
    by (rule drop_columns_family)
  from pl show "operands drop_columns_parser column_names = column_names"
  proof (induction column_names)
    case Nil
    show ?case by (rule operands.simps(1))
  next
    case (Cons x xs)
    from Cons.prems have x: "plain x" and xs: "list_all plain xs" by simp_all
    from x have "x \<noteq> ''--''" by (rule plain_not_dashes)
    moreover from x have "parse_optional drop_columns_parser x = Inr None"
      by (rule plain_parse_optional)
    ultimately show ?case using Cons.IH [OF xs] by simp
  qed
qed

theorem drop_columns_names_witness:
  "operands drop_columns_parser [''--dry-run''] = [] \<and>
   parse_args [''drop-columns'', ''--dry-run''] = Inl SystemExit \<and>
   invoke [''drop-columns'', ''--dry-run''] = Inl SystemExit \<and>
   [''soilTemp1'', ''leafWet1''] \<noteq> [] \<and> list_all plain [''soilTemp1'', ''leafWet1''] \<and>
   invoke [''drop-columns'', ''soilTemp1'', ''leafWet1''] =
     Inr (Call ''drop_columns'' [PNone]
           [(''db_binding'', PStr ''wx_binding''),
            (''column_names'', PList [''soilTemp1'', ''leafWet1'']),
            (''dry_run'', PBool False)]) \<and>
   operands drop_columns_parser
     [''--binding'', ''archive'', ''soilTemp1'', ''leafWet1'', ''--dry-run''] =
     [''soilTemp1'', ''leafWet1''] \<and>
   (\<exists>n. parse_args [''drop-columns'', ''--binding'', ''archive'', ''soilTemp1'', ''leafWet1'',
                      ''--dry-run''] = Inr n \<and>
        n ''column_names'' = Some (PList [''soilTemp1'', ''leafWet1'']))"
proof -
  let ?rest = "[''--binding'', ''archive'', ''soilTemp1'', ''leafWet1'', ''--dry-run'']"
  have z: "operands drop_columns_parser [''--dry-run''] = []" by code_simp
  note r1 = drop_columns_names [where rest = "[''--dry-run'']", THEN conjunct1, THEN mp, OF z]
  have pl: "[''soilTemp1'', ''leafWet1''] \<noteq> [] \<and> list_all plain [''soilTemp1'', ''leafWet1'']"
    by (simp add: plain_def)
  note r3 = drop_columns_names
              [where column_names = "[''soilTemp1'', ''leafWet1'']",
               THEN conjunct2, THEN conjunct2, THEN mp, OF pl, THEN conjunct2]
  have "invoke (''drop-columns'' # ?rest) =
     Inr (Call ''drop_columns'' [PNone]
           [(''db_binding'', PStr ''archive''),
            (''column_names'', PList [''soilTemp1'', ''leafWet1'']),
            (''dry_run'', PBool True)])"
    by code_simp
  from invoke_parsed [OF this] obtain n where
    n: "parse_args (''drop-columns'' # ?rest) = Inr n" ..
  have ops: "operands drop_columns_parser ?rest = [''soilTemp1'', ''leafWet1'']" by code_simp
  note r2 = drop_columns_names
              [where rest = ?rest and n = n, THEN conjunct2, THEN conjunct1, THEN mp, OF n,
               THEN conjunct2, THEN conjunct1, unfolded ops]
  have 2: "\<exists>n. parse_args (''drop-columns'' # ?rest) = Inr n \<and>
        n ''column_names'' = Some (PList [''soilTemp1'', ''leafWet1''])"
    by (rule exI [of _ n], rule conjI) (fact n r2)+
  from z r1 [THEN conjunct1] r1 [THEN conjunct2] pl [THEN conjunct1] pl [THEN conjunct2] r3 ops 2
  show ?thesis by (intro conjI)
qed

text \<open>Not every command line with names is parsed: the names have to stand together.  With
  an option between two names the second name is left over, and the command line is refused.\<close>

theorem drop_columns_split_names_counterexample:
  "operands drop_columns_parser [''soilTemp1'', ''--dry-run'', ''leafWet1''] =
     [''soilTemp1'', ''leafWet1''] \<and>
   invoke [''drop-columns'', ''soilTemp1'', ''--dry-run'', ''leafWet1''] = Inl SystemExit"
  by code_simp

subsection \<open>The dry-run flag\<close>

text \<open>Claim C9.  For every subcommand and every parsed command line, the attribute
  \<open>dry_run\<close> is a boolean and the dispatch forwards it as the keyword argument
  \<open>dry_run\<close>: \<open>False\<close> when \<^verbatim>\<open>--dry-run\<close> is omitted, \<open>True\<close> when
  \<^verbatim>\<open>--dry-run\<close> stands on the command line before any \<^verbatim>\<open>--\<close>.\<close>

theorem dry_run_boolean:
  assumes p: "parse_args (name # rest) = Inr n"
  shows "\<exists>c b. n ''dry_run'' = Some (PBool b) \<and> invoke (name # rest) = Inr c \<and>
           kwarg c ''dry_run'' = Some (PBool b) \<and>
           ((\<forall>s \<in> set rest. \<not> spells ''--dry-run'' s) \<longrightarrow> b = False) \<and>
           (''--dry-run'' \<in> set (takeWhile (\<lambda>s. s \<noteq> ''--'') rest) \<longrightarrow> b = True)"
proof (rule invoke_common [OF p], goal_cases)
  case h: (1 c cf b' b)
  note nb = h(3) and i = h(4) and k = h(7)
  have f: "b = False" if om: "\<forall>s \<in> set rest. \<not> spells ''--dry-run'' s"
  proof (rule parsed_common [OF p], goal_cases)
    case g: (1 P sub f c b d)
    from g(2) common_flags have fl: "dest_flag P ''dry_run'' ''--dry-run'' Store_true"
      by (simp add: list_all_iff)
    from g(2) common_initial have i: "initial_namespace P ''dry_run'' = Some (PBool False)"
      by (simp add: list_all_iff)
    from omitted_default [OF g(2) fl g(3) om] i
    have "sub ''dry_run'' = Some (PBool False)" by simp
    then have "n ''dry_run'' = Some (PBool False)" unfolding g(4) by (rule map_add_sub)
    with nb show ?case by simp
  qed
  have t: "b = True" if gv: "''--dry-run'' \<in> set (takeWhile (\<lambda>s. s \<noteq> ''--'') rest)"
  proof (rule parsed_common [OF p], goal_cases)
    case g: (1 P sub f c b d)
    from g(2) common_flags have fl: "dest_flag P ''dry_run'' ''--dry-run'' Store_true"
      by (simp add: list_all_iff)
    from g(2) dry_run_option have "\<exists>a \<in> set (optionals P).
       map_of (option_string_actions P) ''--dry-run'' = Some a \<and> dest a = ''dry_run''"
      unfolding list_all_iff by (rule bspec [rotated])
    then obtain a where
      a: "map_of (option_string_actions P) ''--dry-run'' = Some a" "dest a = ''dry_run''"
      by (elim bexE conjE)
    have "take 1 ''--dry-run'' = ''-''" by simp
    from flag_given [OF g(2) fl a this gv g(3)]
    have "sub ''dry_run'' = Some (PBool True)" by (elim exE conjE disjE) simp_all
    then have "n ''dry_run'' = Some (PBool True)" unfolding g(4) by (rule map_add_sub)
    with nb show ?case by simp
  qed
  from f t have ft: "((\<forall>s \<in> set rest. \<not> spells ''--dry-run'' s) \<longrightarrow> b = False) \<and>
           (''--dry-run'' \<in> set (takeWhile (\<lambda>s. s \<noteq> ''--'') rest) \<longrightarrow> b = True)"
    by (intro conjI impI)
  show ?case
    by (rule exI [of _ c], rule exI [of _ b], intro conjI) (fact nb i k ft [THEN conjunct1] ft [THEN conjunct2])+
qed

theorem dry_run_boolean_witness:
  "\<not> spells ''--dry-run'' ''--binding'' \<and> \<not> spells ''--dry-run'' ''archive'' \<and>
   ''--dry-run'' \<in> set (takeWhile (\<lambda>s. s \<noteq> ''--'') [''--dry-run'']) \<and>
   (\<exists>c. invoke [''create'', ''--binding'', ''archive''] = Inr c \<and>
        kwarg c ''dry_run'' = Some (PBool False)) \<and>
   (\<exists>c. invoke [''drop-daily'', ''--dry-run''] = Inr c \<and>
        kwarg c ''dry_run'' = Some (PBool True))"
proof -
  have om: "\<forall>s \<in> set [''--binding'', ''archive'']. \<not> spells ''--dry-run'' s"
    by (simp add: spells_def partition_eq_def)
  have gv: "''--dry-run'' \<in> set (takeWhile (\<lambda>s. s \<noteq> ''--'') [''--dry-run''])" by simp
  have "invoke [''create'', ''--binding'', ''archive''] =
     Inr (Call ''create_database'' [PNone]
           [(''db_binding'', PStr ''archive''), (''dry_run'', PBool False)])"
    by code_simp
  from invoke_parsed [OF this] obtain n1 where
    n1: "parse_args [''create'', ''--binding'', ''archive''] = Inr n1" ..
  have "invoke [''drop-daily'', ''--dry-run''] =
     Inr (Call ''drop_daily'' [PNone]
           [(''db_binding'', PStr ''wx_binding''), (''dry_run'', PBool True)])"
    by code_simp
  from invoke_parsed [OF this] obtain n2 where
    n2: "parse_args [''drop-daily'', ''--dry-run''] = Inr n2" ..
  have 1: "\<exists>c. invoke [''create'', ''--binding'', ''archive''] = Inr c \<and>
        kwarg c ''dry_run'' = Some (PBool False)"
    using dry_run_boolean [OF n1]
  proof (elim exE conjE)
    fix c b
    assume a: "invoke [''create'', ''--binding'', ''archive''] = Inr c"
      "kwarg c ''dry_run'' = Some (PBool b)"
      "(\<forall>s \<in> set [''--binding'', ''archive'']. \<not> spells ''--dry-run'' s) \<longrightarrow> b = False"
    from a(3) om have "b = False" by (rule mp)
    with a(1,2) show ?thesis by (intro exI [of _ c]) simp
  qed
  have 2: "\<exists>c. invoke [''drop-daily'', ''--dry-run''] = Inr c \<and>
        kwarg c ''dry_run'' = Some (PBool True)"
    using dry_run_boolean [OF n2]
  proof (elim exE conjE)
    fix c b
    assume a: "invoke [''drop-daily'', ''--dry-run''] = Inr c"
      "kwarg c ''dry_run'' = Some (PBool b)"
      "''--dry-run'' \<in> set (takeWhile (\<lambda>s. s \<noteq> ''--'') [''--dry-run'']) \<longrightarrow> b = True"
    from a(3) gv have "b = True" by (rule mp)
    with a(1,2) show ?thesis by (intro exI [of _ c]) simp
  qed
  from om have "\<not> spells ''--dry-run'' ''--binding''" "\<not> spells ''--dry-run'' ''archive''"
    by simp_all
  from this gv 1 2 show ?thesis by (intro conjI)
qed

subsection \<open>The column type that add-column forwards\<close>

text \<open>Claim C10.  Whenever a command line of add-column is parsed, the keyword argument
  \<open>column_type\<close> of the collaborator call is \<open>REAL\<close> or \<open>INTEGER\<close>, and it is
  \<open>REAL\<close> when \<^verbatim>\<open>--type\<close> is omitted.\<close>

theorem add_column_type_forwarded:
  assumes p: "parse_args (''add-column'' # rest) = Inr n"
  shows "\<exists>c t. invoke (''add-column'' # rest) = Inr c \<and>
           kwarg c ''column_type'' = Some (PStr t) \<and> t \<in> {''REAL'', ''INTEGER''} \<and>
           ((\<forall>s \<in> set rest. \<not> spells ''--type'' s) \<longrightarrow> t = ''REAL'')"
proof (rule invoke_add_column [OF p], goal_cases)
  case g: (1 c b d cn t)
  let ?t = "if upper t = ''INT'' then ''INTEGER'' else upper t"
  from g(7) have m: "t \<in> set (''REAL'' # type_choices)" by (elim disjE) simp_all
  from normalized_choices have
    "\<forall>t \<in> set (''REAL'' # type_choices).
       (if upper t = ''INT'' then ''INTEGER'' else upper t) \<in> set [''REAL'', ''INTEGER'']"
    unfolding list_all_iff .
  from this m have "?t \<in> set [''REAL'', ''INTEGER'']" by (rule bspec)
  then have r: "?t \<in> {''REAL'', ''INTEGER''}" by simp
  have u: "upper ''REAL'' = ''REAL''" by code_simp
  have d: "(\<forall>s \<in> set rest. \<not> spells ''--type'' s) \<longrightarrow> ?t = ''REAL''"
  proof
    assume "\<forall>s \<in> set rest. \<not> spells ''--type'' s"
    with g(8) have "t = ''REAL''" by (rule mp)
    with u show "?t = ''REAL''" by simp
  qed
  have k: "kwarg (Call ''add_column'' [c]
                   [(''db_binding'', PStr b), (''column_name'', PStr cn),
                    (''column_type'', PStr ?t), (''dry_run'', PBool d)]) ''column_type'' =
           Some (PStr ?t)"
    by (simp add: kwarg_def)
  show ?case
    by (rule exI [of _ "Call ''add_column'' [c]
                   [(''db_binding'', PStr b), (''column_name'', PStr cn),
                    (''column_type'', PStr ?t), (''dry_run'', PBool d)]"],
        rule exI [of _ ?t], intro conjI)
       (fact g(9) k r d)+
qed

theorem add_column_type_forwarded_witness:
  "\<not> spells ''--type'' ''rain2'' \<and>
   (\<exists>c. invoke [''add-column'', ''rain2''] = Inr c \<and>
        kwarg c ''column_type'' = Some (PStr ''REAL'')) \<and>
   (\<exists>c t. invoke [''add-column'', ''rain2'', ''--type'', ''int''] = Inr c \<and>
        kwarg c ''column_type'' = Some (PStr t) \<and> t \<in> {''REAL'', ''INTEGER''})"
proof -
  have om: "\<forall>s \<in> set [''rain2'']. \<not> spells ''--type'' s"
    by (simp add: spells_def partition_eq_def)
  have "invoke [''add-column'', ''rain2''] =
     Inr (Call ''add_column'' [PNone]
           [(''db_binding'', PStr ''wx_binding''), (''column_name'', PStr ''rain2''),
            (''column_type'', PStr ''REAL''), (''dry_run'', PBool False)])"
    by code_simp
  from invoke_parsed [OF this] obtain n1 where
    n1: "parse_args [''add-column'', ''rain2''] = Inr n1" ..
  have "invoke [''add-column'', ''rain2'', ''--type'', ''int''] =
     Inr (Call ''add_column'' [PNone]
           [(''db_binding'', PStr ''wx_binding''), (''column_name'', PStr ''rain2''),
            (''column_type'', PStr ''INTEGER''), (''dry_run'', PBool False)])"
    by code_simp
  from invoke_parsed [OF this] obtain n2 where
    n2: "parse_args [''add-column'', ''rain2'', ''--type'', ''int''] = Inr n2" ..
  have 1: "\<exists>c. invoke [''add-column'', ''rain2''] = Inr c \<and>
        kwarg c ''column_type'' = Some (PStr ''REAL'')"
    using add_column_type_forwarded [OF n1]
  proof (elim exE conjE)
    fix c t
    assume a: "invoke [''add-column'', ''rain2''] = Inr c"
      "kwarg c ''column_type'' = Some (PStr t)"
      "(\<forall>s \<in> set [''rain2'']. \<not> spells ''--type'' s) \<longrightarrow> t = ''REAL''"
    from a(3) om have "t = ''REAL''" by (rule mp)
    with a(1,2) show ?thesis by (intro exI [of _ c]) simp
  qed
  have 2: "\<exists>c t. invoke [''add-column'', ''rain2'', ''--type'', ''int''] = Inr c \<and>
        kwarg c ''column_type'' = Some (PStr t) \<and> t \<in> {''REAL'', ''INTEGER''}"
    using add_column_type_forwarded [OF n2]
  proof (elim exE conjE)
    fix c t
    assume a: "invoke [''add-column'', ''rain2'', ''--type'', ''int''] = Inr c"
      "kwarg c ''column_type'' = Some (PStr t)" "t \<in> {''REAL'', ''INTEGER''}"
    then show ?thesis by (intro exI [of _ c] exI [of _ t] conjI)
  qed
  from om have "\<not> spells ''--type'' ''rain2''" by simp
  from this 1 2 show ?thesis by (intro conjI)
qed

end
